theory Spec2Isabelle
  imports Main
begin

section \<open>JavaScript text operations used by the page\<close>

text \<open>
  The page (\<^verbatim>\<open>src/pages/Index.tsx\<close>) works on JavaScript strings.  A string is
  modelled as a \<^typ>\<open>string\<close>, one \<^typ>\<open>char\<close> per code unit (code units below 256).
  The text that \<^verbatim>\<open>TextDecoder.decode(value, {stream: true})\<close> returns for one read is
  the chunk of the model: the decoder is fed the decoded text of every read, in order.
\<close>

definition newline :: string where
  "newline = [CHR 0x0A]"

definition carriage_return :: string where
  "carriage_return = [CHR 0x0D]"

text \<open>\<^verbatim>\<open>s.indexOf(c)\<close> for a one-character needle: the first position, \<open>-1\<close> when absent.\<close>

definition indexOf :: "string \<Rightarrow> string \<Rightarrow> int" where
  "indexOf s needle =
     (if hd needle \<in> set s then int (length (takeWhile (\<lambda>x. x \<noteq> hd needle) s)) else - 1)"

text \<open>
  \<^verbatim>\<open>xs.slice(start, stop)\<close> and \<^verbatim>\<open>xs.slice(start)\<close>, for strings and arrays: a negative
  index counts from the end, and every index is clamped to the length.
\<close>

definition rel_index :: "nat \<Rightarrow> int \<Rightarrow> nat" where
  "rel_index len i = (if i < 0 then nat (max 0 (int len + i)) else min (nat i) len)"

definition slice :: "'a list \<Rightarrow> int \<Rightarrow> int \<Rightarrow> 'a list" where
  "slice xs start stop =
     (let a = rel_index (length xs) start; b = rel_index (length xs) stop
      in take (b - a) (drop a xs))"

definition slice_from :: "'a list \<Rightarrow> int \<Rightarrow> 'a list" where
  "slice_from xs start = drop (rel_index (length xs) start) xs"

definition startsWith :: "string \<Rightarrow> string \<Rightarrow> bool" where
  "startsWith s p = (take (length p) s = p)"

definition endsWith :: "string \<Rightarrow> string \<Rightarrow> bool" where
  "endsWith s p = (length p \<le> length s \<and> drop (length s - length p) s = p)"

text \<open>
  \<^verbatim>\<open>s.trim()\<close> removes white space and line terminators at both ends.  Among the code
  units below 256 these are TAB, LF, VT, FF, CR, SPACE and NBSP.
\<close>

definition is_space :: "char \<Rightarrow> bool" where
  "is_space c =
     (c \<in> set [CHR 0x09, CHR 0x0A, CHR 0x0B, CHR 0x0C, CHR 0x0D, CHR 0x20, CHR 0xA0])"

definition trim :: "string \<Rightarrow> string" where
  "trim s = rev (dropWhile is_space (rev (dropWhile is_space s)))"

section \<open>JSON values as the page reads them\<close>

text \<open>
  The value of \<^verbatim>\<open>JSON.parse\<close>.  A number is carried as the two observations the page can
  make of it: whether it is truthy, and its rendering by \<^verbatim>\<open>ToString\<close>.  An object keeps
  its members in source order; a later member with the same key wins, as in
  \<^verbatim>\<open>JSON.parse\<close>.  \<^verbatim>\<open>undefined\<close> is \<^term>\<open>None\<close> of \<^typ>\<open>'a option\<close>.
\<close>

datatype json =
    JNull
  | JBool bool
  | JNum bool string
  | JStr string
  | JArr "json list"
  | JObj "(string \<times> json) list"

text \<open>
  \<^verbatim>\<open>JSON.parse\<close> belongs to the platform, so the decoder takes it as a parameter:
  \<^term>\<open>None\<close> is the \<^verbatim>\<open>SyntaxError\<close> it throws.
\<close>

type_synonym parser = "string \<Rightarrow> json option"

text \<open>
  \<^verbatim>\<open>v.name\<close> on a value that is neither \<^verbatim>\<open>null\<close> nor \<^verbatim>\<open>undefined\<close>, for the names
  the page reads (\<^verbatim>\<open>choices\<close>, \<^verbatim>\<open>delta\<close>, \<^verbatim>\<open>content\<close>, \<^verbatim>\<open>error\<close>): no prototype
  defines them, so only an object's own member answers.
\<close>

fun get_prop :: "json \<Rightarrow> string \<Rightarrow> json option" where
  "get_prop (JObj members) name = map_of (rev members) name"
| "get_prop v name = None"

text \<open>\<^verbatim>\<open>v[0]\<close> on a value that is neither \<^verbatim>\<open>null\<close> nor \<^verbatim>\<open>undefined\<close>.\<close>

fun get_index0 :: "json \<Rightarrow> json option" where
  "get_index0 (JArr xs) = (case xs of [] \<Rightarrow> None | x # rest \<Rightarrow> Some x)"
| "get_index0 (JStr s) = (case s of [] \<Rightarrow> None | c # rest \<Rightarrow> Some (JStr [c]))"
| "get_index0 (JObj members) = map_of (rev members) ''0''"
| "get_index0 v = None"

text \<open>Optional chaining \<^verbatim>\<open>v?.\<close>: \<^verbatim>\<open>undefined\<close> when \<open>v\<close> is \<^verbatim>\<open>null\<close> or \<^verbatim>\<open>undefined\<close>.\<close>

definition opt_chain :: "json option \<Rightarrow> (json \<Rightarrow> json option) \<Rightarrow> json option" where
  "opt_chain v access = (case v of None \<Rightarrow> None | Some JNull \<Rightarrow> None | Some x \<Rightarrow> access x)"

text \<open>
  \<^verbatim>\<open>parsed.choices?.[0]?.delta?.content\<close>.  The first access is not optional: on
  \<^verbatim>\<open>null\<close> it throws a \<^verbatim>\<open>TypeError\<close>, the outer \<^term>\<open>None\<close>.
\<close>

definition delta_content :: "json \<Rightarrow> json option option" where
  "delta_content parsed =
     (if parsed = JNull then None
      else Some (opt_chain
                  (opt_chain
                    (opt_chain (get_prop parsed ''choices'') get_index0)
                    (\<lambda>choice. get_prop choice ''delta''))
                  (\<lambda>delta. get_prop delta ''content'')))"

text \<open>\<^verbatim>\<open>if (v)\<close> and \<^verbatim>\<open>v || w\<close>: the truthiness of a value.\<close>

fun truthy :: "json option \<Rightarrow> bool" where
  "truthy None = False"
| "truthy (Some JNull) = False"
| "truthy (Some (JBool b)) = b"
| "truthy (Some (JNum t digits)) = t"
| "truthy (Some (JStr s)) = (s \<noteq> [])"
| "truthy (Some (JArr xs)) = True"
| "truthy (Some (JObj members)) = True"

text \<open>
  The conversion of a value to a string, as \<^verbatim>\<open>assistantContent += content\<close> and
  \<^verbatim>\<open>new Error(v)\<close> perform it; \<^term>\<open>None\<close> is the \<^verbatim>\<open>TypeError\<close> it throws.

  An array is converted by \<^verbatim>\<open>Array.prototype.join\<close>: its elements are converted in
  turn and joined with commas, a \<^verbatim>\<open>null\<close> element giving the empty string.  An object
  is converted by the method \<^verbatim>\<open>toString\<close> it answers to.  For an object of
  \<^verbatim>\<open>JSON.parse\<close> without a member of that name this is \<^verbatim>\<open>Object.prototype.toString\<close>,
  which returns \<^verbatim>\<open>[object Object]\<close>.  A member named \<^verbatim>\<open>toString\<close> hides that
  method and is itself no function, and \<^verbatim>\<open>valueOf\<close> (a member that is no function, or
  \<^verbatim>\<open>Object.prototype.valueOf\<close>, which returns the object) gives no primitive value
  either, so the conversion throws.
\<close>

fun join_comma :: "string list \<Rightarrow> string" where
  "join_comma [] = []"
| "join_comma [s] = s"
| "join_comma (s # t # rest) = s @ '','' @ join_comma (t # rest)"

fun to_str :: "json \<Rightarrow> string option" where
  "to_str JNull = Some ''null''"
| "to_str (JBool b) = Some (if b then ''true'' else ''false'')"
| "to_str (JNum t digits) = Some digits"
| "to_str (JStr s) = Some s"
| "to_str (JArr xs) =
     map_option join_comma (those (map (\<lambda>x. if x = JNull then Some [] else to_str x) xs))"
| "to_str (JObj members) =
     (if ''toString'' \<in> set (map fst members) then None else Some ''[object Object]'')"

section \<open>The transcript and the state of the page\<close>

datatype role = user | assistant

record message =
  role :: role
  content :: string
  imageUrl :: "string option"

text \<open>
  The component state of \<^verbatim>\<open>Index\<close> as React last rendered it.  \<open>fileInput\<close> is the
  value of the file input element behind \<^verbatim>\<open>fileInputRef\<close>, \<^term>\<open>None\<close> while the ref
  is empty.

  React, not the page, decides when the component renders.  \<open>renders\<close> is that decision
  for a handler that runs on the page: one entry for each \<^verbatim>\<open>await\<close> the handler will
  reach, in order, telling whether React renders the component while the handler waits
  there; where the list has ended React does not render during the wait.  Every
  statement about an arbitrary page thus holds for every schedule of renders.
\<close>

record page =
  messages :: "message list"
  input :: string
  selectedImage :: "string option"
  isLoading :: bool
  fileInput :: "string option"
  renders :: "bool list"

text \<open>
  The three updater functions \<^verbatim>\<open>handleSend\<close> passes to \<^verbatim>\<open>setMessages\<close>:
  \<^verbatim>\<open>(prev) => [...prev, m]\<close> for a constant \<open>m\<close> (lines 68 and 77), the updater of
  the stream loop (lines 127 to 134), and \<^verbatim>\<open>(prev) => prev.slice(0, -1)\<close> (line 150).
\<close>

datatype updater = AppendMessage message | ShowAccumulator | DropLast

text \<open>
  The state of a run of \<^verbatim>\<open>handleSend\<close>: the page, the locals \<^verbatim>\<open>textBuffer\<close> and
  \<^verbatim>\<open>assistantContent\<close>, and \<open>pending\<close>, the updaters passed to \<^verbatim>\<open>setMessages\<close> that
  React has queued and not yet run.  Two fields keep a record of the run and are read by
  nothing in it: \<open>appended\<close> lists the fragments appended to the accumulator so far, and
  \<open>shown\<close> lists the renders so far, each with the fragments appended before it and the
  transcript it showed.
\<close>

record decoder = page +
  textBuffer :: string
  assistantContent :: string
  pending :: "updater list"
  appended :: "string list"
  shown :: "(string list \<times> message list) list"

definition assistantMessage :: message where
  "assistantMessage = \<lparr>role = assistant, content = [], imageUrl = None\<rparr>"

text \<open>
  The body of the updater of the stream loop: a copy of the transcript whose last element
  is \<^verbatim>\<open>{...assistantMessage, content: assistantContent}\<close>.  On an empty transcript the
  assignment to index \<open>-1\<close> adds no element.  \<open>acc\<close> is the value the variable
  \<^verbatim>\<open>assistantContent\<close> has when the updater runs: the updater closes over the variable,
  not over the value it had when \<^verbatim>\<open>setMessages\<close> was called.
\<close>

definition publish :: "string \<Rightarrow> message list \<Rightarrow> message list" where
  "publish acc prev =
     (if prev = [] then []
      else prev[length prev - 1 := assistantMessage\<lparr>content := acc\<rparr>])"

fun run_updater :: "string \<Rightarrow> updater \<Rightarrow> message list \<Rightarrow> message list" where
  "run_updater acc (AppendMessage m) prev = prev @ [m]"
| "run_updater acc ShowAccumulator prev = publish acc prev"
| "run_updater acc DropLast prev = slice prev 0 (- 1)"

text \<open>
  A render: React runs the queued updaters in the order of their calls, each on the result
  of the one before, and the result is the transcript the component shows.
  \<open>transcript\<close> is what a render would show now.
\<close>

definition transcript :: "decoder \<Rightarrow> message list" where
  "transcript s = fold (run_updater (assistantContent s)) (pending s) (messages s)"

definition render :: "decoder \<Rightarrow> decoder" where
  "render s =
     s\<lparr>messages := transcript s, pending := [],
       shown := shown s @ [(appended s, transcript s)]\<rparr>"

text \<open>An \<^verbatim>\<open>await\<close> of the handler: React renders while the handler waits, or does not.\<close>

definition await :: "decoder \<Rightarrow> decoder" where
  "await s =
     (case renders s of
        [] \<Rightarrow> s
      | now # later \<Rightarrow> (if now then render s else s)\<lparr>renders := later\<rparr>)"

section \<open>The streaming response decoder\<close>

text \<open>
  The body of the \<^verbatim>\<open>try\<close> block for one payload: it throws (a \<^verbatim>\<open>SyntaxError\<close> of
  \<^verbatim>\<open>JSON.parse\<close>, the \<^verbatim>\<open>TypeError\<close> of reading \<^verbatim>\<open>choices\<close> of \<^verbatim>\<open>null\<close>, or the
  \<^verbatim>\<open>TypeError\<close> of a content that \<^verbatim>\<open>+=\<close> cannot convert to a string), or finds no
  truthy content, or appends the content, converted to a string, to the accumulator.
\<close>

datatype attempt = Threw | Nothing | Appended string

definition try_block :: "parser \<Rightarrow> string \<Rightarrow> attempt" where
  "try_block parse jsonStr =
     (case parse jsonStr of
        None \<Rightarrow> Threw
      | Some parsed \<Rightarrow>
          (case delta_content parsed of
             None \<Rightarrow> Threw
           | Some found \<Rightarrow>
               if truthy found
               then (case to_str (the found) of None \<Rightarrow> Threw | Some piece \<Rightarrow> Appended piece)
               else Nothing))"

text \<open>
  Lines 126 to 134: the fragment is appended to \<^verbatim>\<open>assistantContent\<close> and the updater is
  passed to \<^verbatim>\<open>setMessages\<close>, which queues it.
\<close>

definition append_content :: "string \<Rightarrow> decoder \<Rightarrow> decoder" where
  "append_content fragment s =
     s\<lparr>assistantContent := assistantContent s @ fragment,
       pending := pending s @ [ShowAccumulator],
       appended := appended s @ [fragment]\<rparr>"

text \<open>
  The inner \<^verbatim>\<open>while\<close> loop (lines 111 to 140): it takes complete lines off the front
  of the buffer until no newline is left, the sentinel is met, or a payload throws.
\<close>

function inner_loop :: "parser \<Rightarrow> decoder \<Rightarrow> decoder" where
  "inner_loop parse s =
     (let newlineIndex = indexOf (textBuffer s) newline
      in if newlineIndex = - 1 then s
         else
           let line0 = slice (textBuffer s) 0 newlineIndex;
               s1 = s\<lparr>textBuffer := slice_from (textBuffer s) (newlineIndex + 1)\<rparr>;
               line = (if endsWith line0 carriage_return then slice line0 0 (- 1) else line0)
           in if startsWith line '':'' \<or> trim line = [] then inner_loop parse s1
              else if \<not> startsWith line ''data: '' then inner_loop parse s1
              else
                let jsonStr = trim (slice_from line 6)
                in if jsonStr = ''[DONE]'' then s1
                   else
                     (case try_block parse jsonStr of
                        Threw \<Rightarrow> s1\<lparr>textBuffer := line @ newline @ textBuffer s1\<rparr>
                      | Nothing \<Rightarrow> inner_loop parse s1
                      | Appended fragment \<Rightarrow> inner_loop parse (append_content fragment s1)))"
  by pat_completeness auto

termination inner_loop
proof -
  have shorter: "length (slice_from b (indexOf b newline + 1)) < length b"
    if "indexOf b newline \<noteq> - 1" for b
  proof -
    from that have mem: "CHR 0x0A \<in> set b"
      by (simp add: indexOf_def newline_def split: if_splits)
    then have "length (takeWhile (\<lambda>x. x \<noteq> CHR 0x0A) b) < length b"
      by (induction b) auto
    with mem show ?thesis
      by (simp add: indexOf_def newline_def slice_from_def rel_index_def nat_add_distrib)
  qed
  show ?thesis
    by (relation "measure (\<lambda>(parse, s). length (textBuffer s))")
       (auto simp: shorter append_content_def Let_def)
qed

declare inner_loop.simps [simp del]

text \<open>
  A thrown value: an \<^verbatim>\<open>Error\<close> with its message, one of the two \<^verbatim>\<open>TypeError\<close>s the
  page can raise itself (reading a property of \<^verbatim>\<open>null\<close>; converting to a string an
  object that has no primitive value), which are \<^verbatim>\<open>Error\<close>s whose message is the
  engine's, or a value that is no \<^verbatim>\<open>Error\<close>.
\<close>

datatype thrown = JsError string | NullTypeError | PrimitiveTypeError | NonError

datatype read_result = Chunk string | ReadThrows thrown

text \<open>
  The outer \<^verbatim>\<open>while (true)\<close> loop (lines 104 to 141) over the results of
  \<^verbatim>\<open>reader.read()\<close>: the loop waits for each read, and a read delivers the text of a
  chunk or rejects with a thrown value; the end of the list is the read that reports
  \<^verbatim>\<open>done\<close>.  The loop returns the thrown value, if any, with the state it had reached.
\<close>

fun stream_loop :: "parser \<Rightarrow> read_result list \<Rightarrow> decoder \<Rightarrow> thrown option \<times> decoder" where
  "stream_loop parse [] s = (None, await s)"
| "stream_loop parse (Chunk v # reads) s =
     (let s1 = await s
      in stream_loop parse reads (inner_loop parse (s1\<lparr>textBuffer := textBuffer s1 @ v\<rparr>)))"
| "stream_loop parse (ReadThrows e # reads) s = (Some e, await s)"

section \<open>Selecting an image and sending\<close>

text \<open>
  What the page does to the outside: an error toast, the \<^verbatim>\<open>fetch\<close> of the analysis
  request, a line on the console.  The text of a toast is a literal, or the message the
  engine gives one of the two \<^verbatim>\<open>TypeError\<close>s.
\<close>

record request =
  imageBase64 :: string
  prompt :: "string option"

datatype toast_text = Literal string | NullTypeErrorMessage | PrimitiveTypeErrorMessage

datatype effect = ToastError toast_text | Fetch request | ConsoleError thrown

text \<open>
  The file of the change event: \<open>file_type\<close> and \<open>file_size\<close> are \<^verbatim>\<open>file.type\<close> and
  \<^verbatim>\<open>file.size\<close>; \<open>data_url\<close> is the result \<^verbatim>\<open>readAsDataURL\<close> hands to \<^verbatim>\<open>onload\<close>,
  \<^term>\<open>None\<close> when the read fails and \<^verbatim>\<open>onload\<close> never runs.
\<close>

record picked_file =
  file_type :: string
  file_size :: nat
  data_url :: "string option"

definition handleImageSelect :: "picked_file option \<Rightarrow> page \<Rightarrow> page \<times> effect list" where
  "handleImageSelect picked st =
     (case picked of
        None \<Rightarrow> (st, [])
      | Some f \<Rightarrow>
          if \<not> startsWith (file_type f) ''image/''
          then (st, [ToastError (Literal ''Please select an image file'')])
          else if file_size f > 20 * 1024 * 1024
          then (st, [ToastError (Literal ''Image size must be less than 20MB'')])
          else (case data_url f of
                  None \<Rightarrow> (st, [])
                | Some url \<Rightarrow> (st\<lparr>selectedImage := Some url\<rparr>, [])))"

text \<open>
  The response of \<^verbatim>\<open>fetch\<close>: \<open>body\<close> is \<^term>\<open>None\<close> for a \<^verbatim>\<open>null\<close> body and otherwise
  the reads its reader delivers; \<open>json_body\<close> is what \<^verbatim>\<open>response.json()\<close> resolves to,
  \<^term>\<open>None\<close> when it rejects.
\<close>

record response =
  ok :: bool
  body :: "read_result list option"
  json_body :: "json option"

datatype fetch_result = Rejected thrown | Resolved response

text \<open>\<^verbatim>\<open>!selectedImage\<close>: \<^verbatim>\<open>null\<close> and the empty string are falsy.\<close>

definition falsy :: "string option \<Rightarrow> bool" where
  "falsy v = (case v of None \<Rightarrow> True | Some s \<Rightarrow> s = [])"

text \<open>\<^verbatim>\<open>error instanceof Error ? error.message : "Failed to analyze image"\<close>.\<close>

definition error_message :: "thrown \<Rightarrow> toast_text" where
  "error_message e =
     (case e of
        JsError m \<Rightarrow> Literal m
      | NullTypeError \<Rightarrow> NullTypeErrorMessage
      | PrimitiveTypeError \<Rightarrow> PrimitiveTypeErrorMessage
      | NonError \<Rightarrow> Literal ''Failed to analyze image'')"

text \<open>
  Lines 96 and 97: \<^verbatim>\<open>errorData\<close> is the JSON body, \<^verbatim>\<open>{}\<close> when \<^verbatim>\<open>response.json()\<close>
  rejects.  Reading \<^verbatim>\<open>errorData.error\<close> throws when the body is \<^verbatim>\<open>null\<close>;
  \<^verbatim>\<open>new Error(v)\<close> converts \<open>v\<close> to a string and throws when that conversion does;
  otherwise the statement throws the \<^verbatim>\<open>Error\<close> it made.
\<close>

definition response_error :: "response \<Rightarrow> thrown" where
  "response_error r =
     (let errorData = (case json_body r of None \<Rightarrow> JObj [] | Some d \<Rightarrow> d)
      in if errorData = JNull then NullTypeError
         else let e = get_prop errorData ''error''
              in if truthy e
                 then (case to_str (the e) of None \<Rightarrow> PrimitiveTypeError | Some m \<Rightarrow> JsError m)
                 else JsError ''Failed to analyze image'')"

text \<open>
  The page once the handler has returned: React renders, running the updaters still in
  the queue.
\<close>

definition settle :: "decoder \<Rightarrow> page" where
  "settle s = page.truncate (render s)"

text \<open>The \<^verbatim>\<open>catch\<close> and \<^verbatim>\<open>finally\<close> blocks (lines 147 to 153).\<close>

definition failed :: "thrown \<Rightarrow> decoder \<Rightarrow> effect list \<Rightarrow> page \<times> effect list" where
  "failed e s fx =
     (settle (s\<lparr>pending := pending s @ [DropLast], isLoading := False\<rparr>),
      fx @ [ConsoleError e, ToastError (error_message e)])"

text \<open>
  Lines 62 to 77: the user message, and the state of the run when it enters the
  \<^verbatim>\<open>try\<close> block, the two \<^verbatim>\<open>setMessages\<close> calls queued.  \<open>input\<close> and
  \<open>selectedImage\<close> are the values of the render that created the handler; they are read
  after the two validation checks, so the image is present.  \<^verbatim>\<open>setInput\<close> and
  \<^verbatim>\<open>setIsLoading\<close> are given values, which show the same whenever React renders, so the
  model sets them at the call.  \<^verbatim>\<open>textBuffer\<close> is declared at line 102 and empty then.
\<close>

definition userMessage :: "page \<Rightarrow> message" where
  "userMessage st =
     \<lparr>role = user,
      content = (if trim (input st) = [] then ''What's in this image?'' else trim (input st)),
      imageUrl = selectedImage st\<rparr>"

definition sending :: "page \<Rightarrow> decoder" where
  "sending st =
     \<lparr>messages = messages st, input = [], selectedImage = selectedImage st,
      isLoading = True, fileInput = fileInput st, renders = renders st,
      textBuffer = [], assistantContent = [],
      pending = [AppendMessage (userMessage st), AppendMessage assistantMessage],
      appended = [], shown = []\<rparr>"

text \<open>
  Lines 88 to 91: the body of the request.  It is built from the text as it was before
  \<^verbatim>\<open>setInput("")\<close>, and \<^verbatim>\<open>JSON.stringify\<close> leaves an \<^verbatim>\<open>undefined\<close> prompt out.
\<close>

definition analysis_request :: "page \<Rightarrow> request" where
  "analysis_request st =
     \<lparr>imageBase64 = the (selectedImage st),
      prompt = (if trim (input st) = [] then None else Some (trim (input st)))\<rparr>"

text \<open>
  The state in which the handler is resumed after it has waited for \<^verbatim>\<open>fetch\<close>
  (line 80).  When the response has a body, this is the state in which the stream loop
  starts: the buffer and the accumulator are empty.
\<close>

definition start :: "page \<Rightarrow> decoder" where
  "start st = await (sending st)"

text \<open>
  The state of \<^verbatim>\<open>handleSend\<close> on the page \<open>st\<close> when its stream loop has taken the
  reads.  Every state in which the loop is resumed after a read is of this form.
\<close>

definition streaming :: "parser \<Rightarrow> read_result list \<Rightarrow> page \<Rightarrow> decoder" where
  "streaming parse reads st = snd (stream_loop parse reads (start st))"

text \<open>The decoder run on the chunks of a stream that ends without a failed read.\<close>

definition decode :: "parser \<Rightarrow> string list \<Rightarrow> page \<Rightarrow> decoder" where
  "decode parse chunks st = streaming parse (map Chunk chunks) st"

text \<open>
  \<^verbatim>\<open>handleSend\<close> (lines 51 to 154), given what the network answers.  The handler waits
  for \<^verbatim>\<open>fetch\<close> (line 80), for \<^verbatim>\<open>response.json()\<close> on the error path (line 96) and
  for every read of the body (line 105).  The result is the page as React renders it once
  the handler has returned.
\<close>

definition handleSend :: "parser \<Rightarrow> fetch_result \<Rightarrow> page \<Rightarrow> page \<times> effect list" where
  "handleSend parse net st =
     (if falsy (selectedImage st) \<and> trim (input st) = []
      then (st, [ToastError (Literal ''Please upload an image or enter a message'')])
      else if falsy (selectedImage st)
      then (st, [ToastError (Literal ''Please upload an image to analyze'')])
      else
        let fx = [Fetch (analysis_request st)];
            s = start st
        in case net of
             Rejected e \<Rightarrow> failed e s fx
           | Resolved r \<Rightarrow>
               if \<not> ok r \<or> body r = None then failed (response_error r) (await s) fx
               else
                 (case stream_loop parse (the (body r)) s of
                    (Some e, s') \<Rightarrow> failed e s' fx
                  | (None, s') \<Rightarrow>
                      (settle (s'\<lparr>selectedImage := None,
                                   fileInput := map_option (\<lambda>v. []) (fileInput s'),
                                   isLoading := False\<rparr>),
                       fx)))"

text \<open>
  How a send that passed validation fails, if it does: \<^verbatim>\<open>fetch\<close> rejects, the response
  has a non-success status or no body, or a read of the body rejects.
\<close>

fun first_throw :: "read_result list \<Rightarrow> thrown option" where
  "first_throw [] = None"
| "first_throw (Chunk v # reads) = first_throw reads"
| "first_throw (ReadThrows e # reads) = Some e"

definition failure :: "fetch_result \<Rightarrow> thrown option" where
  "failure net =
     (case net of
        Rejected e \<Rightarrow> Some e
      | Resolved r \<Rightarrow>
          if \<not> ok r \<or> body r = None then Some (response_error r)
          else first_throw (the (body r)))"

section \<open>The decoder, line by line\<close>

text \<open>
  What the inner loop decides for one extracted line: the line is passed over, it is the
  sentinel, or it carries a payload for the \<^verbatim>\<open>try\<close> block.
\<close>

datatype line_kind = Ignored | Sentinel | Event string

definition strip_cr :: "string \<Rightarrow> string" where
  "strip_cr line0 = (if endsWith line0 carriage_return then slice line0 0 (- 1) else line0)"

definition classify :: "string \<Rightarrow> line_kind" where
  "classify line0 =
     (let line = strip_cr line0
      in if startsWith line '':'' \<or> trim line = [] then Ignored
         else if \<not> startsWith line ''data: '' then Ignored
         else let jsonStr = trim (slice_from line 6)
              in if jsonStr = ''[DONE]'' then Sentinel else Event jsonStr)"

text \<open>
  A comment or blank line, as line 116 tests it: the line starts with a colon, or nothing
  but white space is left once its trailing carriage return is stripped.
\<close>

definition comment_or_blank :: "string \<Rightarrow> bool" where
  "comment_or_blank l \<longleftrightarrow> startsWith l '':'' \<or> trim (strip_cr l) = []"

text \<open>The fragment a line adds to the accumulator when the inner loop reaches it.\<close>

definition fragment_of :: "parser \<Rightarrow> string \<Rightarrow> string" where
  "fragment_of parse l =
     (case classify l of
        Event p \<Rightarrow> (case try_block parse p of Appended c \<Rightarrow> c | Threw \<Rightarrow> [] | Nothing \<Rightarrow> [])
      | Ignored \<Rightarrow> []
      | Sentinel \<Rightarrow> [])"

text \<open>
  The complete lines of a text, each without its newline; what follows the last newline
  is no line yet.  \<open>lines_from cur t\<close> reads \<open>t\<close> with \<open>cur\<close> the part of the current line
  already read.
\<close>

fun lines_from :: "string \<Rightarrow> string \<Rightarrow> string list" where
  "lines_from cur [] = []"
| "lines_from cur (c # cs) =
     (if c = CHR 0x0A then cur # lines_from [] cs else lines_from (cur @ [c]) cs)"

definition complete_lines :: "string \<Rightarrow> string list" where
  "complete_lines t = lines_from [] t"

text \<open>The part of the current line that is left open after \<open>t\<close>.\<close>

fun open_line :: "string \<Rightarrow> string \<Rightarrow> string" where
  "open_line cur [] = cur"
| "open_line cur (c # cs) = (if c = CHR 0x0A then open_line [] cs else open_line (cur @ [c]) cs)"

text \<open>A text that is empty or ends with a newline ends at a line boundary.\<close>

definition boundary :: "string \<Rightarrow> bool" where
  "boundary t \<longleftrightarrow> t = [] \<or> last t = CHR 0x0A"

text \<open>
  A well-formed stream: the \<^verbatim>\<open>try\<close> block succeeds on the payload of every complete
  \<^verbatim>\<open>data: \<close> line, and no such event follows the sentinel.  \<open>ended\<close> tells whether the
  sentinel has been met.
\<close>

fun well_formed_lines :: "parser \<Rightarrow> bool \<Rightarrow> string list \<Rightarrow> bool" where
  "well_formed_lines parse ended [] = True"
| "well_formed_lines parse ended (l # ls) =
     (case classify l of
        Ignored \<Rightarrow> well_formed_lines parse ended ls
      | Sentinel \<Rightarrow> well_formed_lines parse True ls
      | Event p \<Rightarrow> \<not> ended \<and> try_block parse p \<noteq> Threw \<and> well_formed_lines parse ended ls)"

definition well_formed :: "parser \<Rightarrow> string \<Rightarrow> bool" where
  "well_formed parse t = well_formed_lines parse False (complete_lines t)"

text \<open>The text of a stream: the fragments of its complete lines, in order.\<close>

definition stream_text :: "parser \<Rightarrow> string \<Rightarrow> string" where
  "stream_text parse t = concat (map (fragment_of parse) (complete_lines t))"

text \<open>
  The stream loop run on chunks from any of its states, up to the wait for the next
  read.
\<close>

fun run :: "parser \<Rightarrow> string list \<Rightarrow> decoder \<Rightarrow> decoder" where
  "run parse [] s = s"
| "run parse (c # chunks) s =
     run parse chunks (inner_loop parse ((await s)\<lparr>textBuffer := textBuffer s @ c\<rparr>))"

section \<open>Invariants of the stream loop\<close>

text \<open>
  What holds of the run of \<^verbatim>\<open>handleSend\<close> on the page \<open>st\<close> from line 79 on, as long
  as it is in the \<^verbatim>\<open>try\<close> block.  The four fields of the page that the block does not
  set are as line 70 left them.  The accumulator is the concatenation of the fragments
  appended.  Whatever the accumulator is when React renders next, the transcript then
  shown is the one before the send, the user message and one assistant message, and the
  same holds of the transcript that each queued updater of the stream loop is run on; as
  the accumulator stands, the assistant message holds it.  Every render so far showed
  that transcript with the fragments appended before the render, all of them, in the
  assistant message.
\<close>

definition in_flight :: "page \<Rightarrow> decoder \<Rightarrow> bool" where
  "in_flight st s \<longleftrightarrow>
     input s = [] \<and> selectedImage s = selectedImage st \<and> isLoading s \<and>
     fileInput s = fileInput st \<and>
     assistantContent s = concat (appended s) \<and>
     (\<forall>acc. \<exists>x. fold (run_updater acc) (pending s) (messages s) =
                   messages st @ [userMessage st, assistantMessage\<lparr>content := x\<rparr>]) \<and>
     (\<forall>acc. \<forall>n < length (pending s). pending s ! n = ShowAccumulator \<longrightarrow>
        (\<exists>x. fold (run_updater acc) (take n (pending s)) (messages s) =
               messages st @ [userMessage st, assistantMessage\<lparr>content := x\<rparr>])) \<and>
     transcript s =
       messages st @ [userMessage st, assistantMessage\<lparr>content := assistantContent s\<rparr>] \<and>
     (\<forall>(fs, t) \<in> set (shown s).
        t = messages st @ [userMessage st, assistantMessage\<lparr>content := concat fs\<rparr>] \<and>
        take (length fs) (appended s) = fs)"

text \<open>Two states of the stream loop that differ at most in the buffer.\<close>

definition rest_equal :: "decoder \<Rightarrow> decoder \<Rightarrow> bool" where
  "rest_equal s t \<longleftrightarrow> s\<lparr>textBuffer := []\<rparr> = t\<lparr>textBuffer := []\<rparr>"

section \<open>Sample data for the worked instances\<close>

text \<open>The event object that carries one content fragment.\<close>

definition content_event :: "string \<Rightarrow> json" where
  "content_event c = JObj [(''choices'', JArr [JObj [(''delta'', JObj [(''content'', JStr c)])]])]"

text \<open>
  \<open>sample_parse\<close> stands for \<^verbatim>\<open>JSON.parse\<close> in the worked instances: the two payloads
  it lists are mapped to the values \<^verbatim>\<open>JSON.parse\<close> gives them, and any other text is
  refused, as \<^verbatim>\<open>JSON.parse\<close> refuses the only other payload the instances pass, the
  cut-off object of \<open>stalled\<close>.
\<close>

definition sample_parse :: parser where
  \<open>sample_parse s =
     (if s = ''{"choices":[{"delta":{"content":"cat"}}]}'' then Some (content_event ''cat'')
      else if s = ''{"choices":[{"delta":{"content":"late"}}]}'' then Some (content_event ''late'')
      else None)\<close>

text \<open>
  A page with an image selected and a question typed.  React renders while the handler
  waits for \<^verbatim>\<open>fetch\<close>, not during the wait after it, and during the two waits after
  that.
\<close>

definition sample_page :: page where
  "sample_page =
     \<lparr>messages = [], input = '' what is this? '', selectedImage = Some ''data:image/png;base64,iVBORw0KGgo='',
      isLoading = False, fileInput = Some ''cat.png'', renders = [True, False, True, True]\<rparr>"

text \<open>The same page when React does not render before the handler has returned.\<close>

definition quiet_page :: page where
  "quiet_page = sample_page\<lparr>renders := []\<rparr>"

definition blank_page :: page where
  "blank_page = sample_page\<lparr>input := ''  ''\<rparr>"

definition asked :: message where
  "asked = \<lparr>role = user, content = ''what is this?'',
             imageUrl = Some ''data:image/png;base64,iVBORw0KGgo=''\<rparr>"

text \<open>Failed sends: HTTP 500 with three JSON bodies, and a stream whose first read rejects.\<close>

definition rate_limited :: fetch_result where
  "rate_limited =
     Resolved \<lparr>ok = False, body = Some [], json_body = Some (JObj [(''error'', JStr ''rate limited'')])\<rparr>"

definition error_code :: fetch_result where
  "error_code =
     Resolved \<lparr>ok = False, body = Some [],
               json_body = Some (JObj [(''error'', JArr [JNum True ''429'', JNull, JStr ''busy''])])\<rparr>"

definition error_without_text :: fetch_result where
  "error_without_text =
     Resolved \<lparr>ok = False, body = Some [],
               json_body = Some (JObj [(''error'', JObj [(''toString'', JNum True ''1'')])])\<rparr>"

definition dropped_stream :: fetch_result where
  "dropped_stream =
     Resolved \<lparr>ok = True, body = Some [ReadThrows (JsError ''network error'')], json_body = None\<rparr>"

definition finished_stream :: fetch_result where
  \<open>finished_stream =
     Resolved \<lparr>ok = True,
               body = Some [Chunk (''data: {"choices":[{"delta":{"content":"cat"}}]}'' @ newline),
                            Chunk (''data: [DONE]'' @ newline)],
               json_body = None\<rparr>\<close>

definition png_file :: picked_file where
  "png_file = \<lparr>file_type = ''image/png'', file_size = 20971520,
                data_url = Some ''data:image/png;base64,iVBORw0KGgo=''\<rparr>"

definition pdf_file :: picked_file where
  "pdf_file = \<lparr>file_type = ''application/pdf'', file_size = 1024, data_url = Some ''data:application/pdf;base64,JVBERi0=''\<rparr>"

definition huge_file :: picked_file where
  "huge_file = \<lparr>file_type = ''image/jpeg'', file_size = 20971521, data_url = Some ''data:image/jpeg;base64,AAAA''\<rparr>"

text \<open>Two events that arrive in one read, and the same two events in two reads.\<close>

definition shared_read :: "read_result list" where
  \<open>shared_read =
     [Chunk (''data: {"choices":[{"delta":{"content":"cat"}}]}'' @ newline @
             ''data: {"choices":[{"delta":{"content":"late"}}]}'' @ newline),
      Chunk (''data: [DONE]'' @ newline)]\<close>

definition two_fragments :: "read_result list" where
  \<open>two_fragments =
     [Chunk (''data: {"choices":[{"delta":{"content":"cat"}}]}'' @ newline),
      Chunk (''data: {"choices":[{"delta":{"content":"late"}}]}'' @ newline @
             ''data: [DONE]'' @ newline)]\<close>

definition stalled :: decoder where
  \<open>stalled = (start sample_page)\<lparr>textBuffer := ''data: {"choices":[{"delta"'' @ newline @ '': ping''\<rparr>\<close>

definition cat_stream_chunks :: "string list" where
  \<open>cat_stream_chunks =
     ['': keep-alive'' @ newline @ ''data: {"choi'',
      ''ces":[{"delta":{"content":"cat"}}]}'' @ carriage_return,
      newline @ newline @ ''data: [DO'',
      ''NE]'' @ newline @ newline]\<close>

definition ping_line :: string where
  "ping_line = '': keep-alive'' @ carriage_return"

definition cat_chunk :: string where
  \<open>cat_chunk = ''data: {"choices":[{"delta":{"content":"cat"}}]}'' @ newline\<close>

definition late_chunk :: string where
  \<open>late_chunk = ''data: {"choices":[{"delta":{"content":"late"}}]}'' @ newline\<close>

section \<open>Properties of the text operations\<close>

lemma indexOf_newline_absent:
  "indexOf b newline = - 1 \<longleftrightarrow> CHR 0x0A \<notin> set b"
  by (simp add: indexOf_def newline_def)

lemma indexOf_first:
  "CHR 0x0A \<notin> set l \<Longrightarrow> indexOf (l @ CHR 0x0A # rest) newline = int (length l)"
proof -
  assume "CHR 0x0A \<notin> set l"
  then have "takeWhile (\<lambda>x. x \<noteq> CHR 0x0A) (l @ CHR 0x0A # rest) = l"
    by (induction l) auto
  then show ?thesis
    by (simp add: indexOf_def newline_def)
qed

lemma slice_prefix: "slice (l @ x # rest) 0 (int (length l)) = l"
  by (simp add: slice_def rel_index_def)

lemma slice_from_suffix: "slice_from (l @ x # rest) (int (length l) + 1) = rest"
  by (simp add: slice_from_def rel_index_def nat_add_distrib)

lemma slice_butlast: "slice xs 0 (- 1) = butlast xs"
proof -
  have "nat (max 0 (int (length xs) - 1)) = length xs - 1"
    by arith
  then show ?thesis
    by (simp add: slice_def rel_index_def butlast_conv_take)
qed

lemma strip_cr_snoc: "strip_cr (k @ [CHR 0x0D]) = k"
  by (simp add: strip_cr_def endsWith_def carriage_return_def slice_butlast)

lemma strip_cr_other: "l = [] \<or> last l \<noteq> CHR 0x0D \<Longrightarrow> strip_cr l = l"
  by (cases l rule: rev_cases) (auto simp: strip_cr_def endsWith_def carriage_return_def)

lemma trim_snoc_space:
  assumes "is_space c"
  shows "trim (k @ [c]) = trim k"
proof (cases "\<forall>x \<in> set k. is_space x")
  case True
  have all: "dropWhile is_space xs = []" if "\<forall>x \<in> set xs. is_space x" for xs
    using that by (induction xs) auto
  from True assms have "dropWhile is_space (k @ [c]) = []" "dropWhile is_space k = []"
    by (auto intro!: all)
  then show ?thesis
    by (simp only: trim_def)
next
  case False
  then have "dropWhile is_space (k @ [c]) = dropWhile is_space k @ [c]"
    by (auto simp: dropWhile_append1)
  with assms show ?thesis
    by (simp add: trim_def)
qed

lemma startsWith_snoc:
  assumes "p \<noteq> []" and "last p \<noteq> c"
  shows "startsWith (k @ [c]) p = startsWith k p"
proof (cases "length p \<le> length k")
  case True
  then show ?thesis by (simp add: startsWith_def)
next
  case False
  then have short: "length k < length p" by simp
  then have "take (length p) k \<noteq> p"
    by (metis length_take min.absorb1 nat_less_le)
  moreover have "take (length p) (k @ [c]) \<noteq> p"
  proof
    assume eq: "take (length p) (k @ [c]) = p"
    from short have "take (length p) (k @ [c]) = k @ [c]"
      by simp
    with eq have "p = k @ [c]" by simp
    with assms(2) show False by simp
  qed
  ultimately show ?thesis by (simp add: startsWith_def)
qed

lemma classify_strip_cr: "classify (strip_cr l) = classify l"
proof -
  define F where "F line =
     (if startsWith line '':'' \<or> trim line = [] then Ignored
      else if \<not> startsWith line ''data: '' then Ignored
      else if trim (slice_from line 6) = ''[DONE]'' then Sentinel
      else Event (trim (slice_from line 6)))" for line
  have c: "classify x = F (strip_cr x)" for x
    by (simp add: classify_def F_def Let_def)
  have snoc: "F (j @ [CHR 0x0D]) = F j" for j
  proof -
    have sp: "is_space (CHR 0x0D)"
      by (simp add: is_space_def)
    have a: "startsWith (j @ [CHR 0x0D]) '':'' = startsWith j '':''"
      by (rule startsWith_snoc) simp_all
    have b: "trim (j @ [CHR 0x0D]) = trim j"
      by (rule trim_snoc_space [OF sp])
    have d: "startsWith (j @ [CHR 0x0D]) ''data: '' = startsWith j ''data: ''"
      by (rule startsWith_snoc) simp_all
    show ?thesis
    proof (cases "startsWith j ''data: ''")
      case False
      then show ?thesis by (simp add: F_def a b d)
    next
      case True
      then have "take (length ''data: '') j = ''data: ''"
        unfolding startsWith_def .
      then have "length (take (length ''data: '') j) = length ''data: ''"
        by (rule arg_cong)
      then have "6 \<le> length j"
        by simp
      then have "slice_from (j @ [CHR 0x0D]) 6 = slice_from j 6 @ [CHR 0x0D]"
        by (simp add: slice_from_def rel_index_def)
      then have "trim (slice_from (j @ [CHR 0x0D]) 6) = trim (slice_from j 6)"
        by (simp add: trim_snoc_space [OF sp])
      then show ?thesis by (simp add: F_def a b d)
    qed
  qed
  have twice: "F (strip_cr m) = F m" for m
  proof (cases "m = [] \<or> last m \<noteq> CHR 0x0D")
    case True
    then show ?thesis by (simp add: strip_cr_other)
  next
    case False
    then obtain j where "m = j @ [CHR 0x0D]"
      by (cases m rule: rev_cases) auto
    then show ?thesis by (simp add: strip_cr_snoc snoc)
  qed
  show ?thesis
    by (simp add: c twice)
qed

lemma comment_or_blank_ignored:
  assumes "comment_or_blank l"
  shows "classify l = Ignored"
proof -
  have "startsWith (strip_cr l) '':''" if "startsWith l '':''"
  proof (cases "l = [] \<or> last l \<noteq> CHR 0x0D")
    case True
    with that show ?thesis by (simp add: strip_cr_other)
  next
    case False
    then obtain k where k: "l = k @ [CHR 0x0D]"
      by (cases l rule: rev_cases) auto
    have "startsWith (k @ [CHR 0x0D]) '':'' = startsWith k '':''"
      by (rule startsWith_snoc) simp_all
    with that show ?thesis
      by (simp add: k strip_cr_snoc)
  qed
  with assms show ?thesis
    by (auto simp: comment_or_blank_def classify_def Let_def)
qed

section \<open>The inner loop, one line at a time\<close>

lemma inner_loop_no_newline:
  "CHR 0x0A \<notin> set (textBuffer s) \<Longrightarrow> inner_loop parse s = s"
  by (subst inner_loop.simps) (simp add: indexOf_newline_absent)

lemma inner_loop_unfold:
  assumes "CHR 0x0A \<notin> set l" and "textBuffer s = l @ CHR 0x0A # rest"
  shows "inner_loop parse s =
     (if startsWith (strip_cr l) '':'' \<or> trim (strip_cr l) = []
      then inner_loop parse (s\<lparr>textBuffer := rest\<rparr>)
      else if \<not> startsWith (strip_cr l) ''data: ''
      then inner_loop parse (s\<lparr>textBuffer := rest\<rparr>)
      else if trim (slice_from (strip_cr l) 6) = ''[DONE]'' then s\<lparr>textBuffer := rest\<rparr>
      else (case try_block parse (trim (slice_from (strip_cr l) 6)) of
              Threw \<Rightarrow> s\<lparr>textBuffer := strip_cr l @ newline @ rest\<rparr>
            | Nothing \<Rightarrow> inner_loop parse (s\<lparr>textBuffer := rest\<rparr>)
            | Appended fragment \<Rightarrow>
                inner_loop parse (append_content fragment (s\<lparr>textBuffer := rest\<rparr>))))"
proof -
  have i: "indexOf (textBuffer s) newline = int (length l)"
    using assms by (simp add: indexOf_first)
  have ne: "int (length l) \<noteq> - 1"
    by simp
  have a: "slice (textBuffer s) 0 (int (length l)) = l"
    using assms(2) by (simp add: slice_prefix)
  have b: "slice_from (textBuffer s) (int (length l) + 1) = rest"
    using assms(2) by (simp add: slice_from_suffix)
  have c: "(if endsWith l carriage_return then slice l 0 (- 1) else l) = strip_cr l"
    by (simp add: strip_cr_def)
  have d: "textBuffer (s\<lparr>textBuffer := rest\<rparr>) = rest"
    by simp
  have e: "\<And>x. s\<lparr>textBuffer := rest, textBuffer := x\<rparr> = s\<lparr>textBuffer := x\<rparr>"
    by simp
  show ?thesis
    by (subst inner_loop.simps) (simp only: i ne a b c d e Let_def if_False)
qed

lemma inner_loop_line:
  assumes "CHR 0x0A \<notin> set l" and "textBuffer s = l @ CHR 0x0A # rest"
  shows "inner_loop parse s =
     (case classify l of
        Ignored \<Rightarrow> inner_loop parse (s\<lparr>textBuffer := rest\<rparr>)
      | Sentinel \<Rightarrow> s\<lparr>textBuffer := rest\<rparr>
      | Event jsonStr \<Rightarrow>
          (case try_block parse jsonStr of
             Threw \<Rightarrow> s\<lparr>textBuffer := strip_cr l @ newline @ rest\<rparr>
           | Nothing \<Rightarrow> inner_loop parse (s\<lparr>textBuffer := rest\<rparr>)
           | Appended fragment \<Rightarrow> inner_loop parse (append_content fragment (s\<lparr>textBuffer := rest\<rparr>))))"
  unfolding inner_loop_unfold [OF assms] classify_def Let_def
  by (simp only: line_kind.case if_distrib [of "case_line_kind _ _ _"] cong: if_cong)

lemma inner_loop_last_line:
  assumes "CHR 0x0A \<notin> set l" and "textBuffer s = l @ newline"
  shows "inner_loop parse s =
     (case classify l of
        Ignored \<Rightarrow> s\<lparr>textBuffer := []\<rparr>
      | Sentinel \<Rightarrow> s\<lparr>textBuffer := []\<rparr>
      | Event jsonStr \<Rightarrow>
          (case try_block parse jsonStr of
             Threw \<Rightarrow> s\<lparr>textBuffer := strip_cr l @ newline\<rparr>
           | Nothing \<Rightarrow> s\<lparr>textBuffer := []\<rparr>
           | Appended fragment \<Rightarrow> append_content fragment (s\<lparr>textBuffer := []\<rparr>)))"
proof -
  from assms(2) have b: "textBuffer s = l @ CHR 0x0A # []"
    by (simp add: newline_def)
  show ?thesis
    unfolding inner_loop_line [OF assms(1) b]
    by (simp add: inner_loop_no_newline append_content_def Let_def
             split: line_kind.split attempt.split)
qed

lemma inner_loop_induct [case_names no_newline line]:
  assumes "\<And>s. CHR 0x0A \<notin> set (textBuffer s) \<Longrightarrow> P s"
    and "\<And>s l rest. CHR 0x0A \<notin> set l \<Longrightarrow> textBuffer s = l @ CHR 0x0A # rest \<Longrightarrow>
           (\<And>s'. textBuffer s' = rest \<Longrightarrow> P s') \<Longrightarrow> P s"
  shows "P (s :: decoder)"
proof (induction "length (textBuffer s)" arbitrary: s rule: less_induct)
  case less
  show ?case
  proof (cases "CHR 0x0A \<in> set (textBuffer s)")
    case False
    then show ?thesis by (rule assms(1))
  next
    case True
    then obtain l rest where split: "textBuffer s = l @ CHR 0x0A # rest" "CHR 0x0A \<notin> set l"
      by (auto dest: split_list_first)
    show ?thesis
    proof (rule assms(2) [OF split(2) split(1)])
      fix s' :: decoder
      assume "textBuffer s' = rest"
      then have "length (textBuffer s') < length (textBuffer s)"
        by (simp add: split(1))
      then show "P s'" by (rule less)
    qed
  qed
qed

lemma append_content_buffer:
  "append_content c (s\<lparr>textBuffer := b\<rparr>) = (append_content c s)\<lparr>textBuffer := b\<rparr>"
  by (simp add: append_content_def Let_def)

lemma skip_line:
  assumes "CHR 0x0A \<notin> set l" and "comment_or_blank l"
  shows "inner_loop parse (u\<lparr>textBuffer := l @ CHR 0x0A # y\<rparr>) =
         inner_loop parse (u\<lparr>textBuffer := y\<rparr>)"
proof -
  have "textBuffer (u\<lparr>textBuffer := l @ CHR 0x0A # y\<rparr>) = l @ CHR 0x0A # y"
    by simp
  from inner_loop_line [OF assms(1) this, of parse] show ?thesis
    by (simp add: comment_or_blank_ignored [OF assms(2)])
qed
section \<open>Renders and waits\<close>

lemma render_fields [simp]:
  "textBuffer (render s) = textBuffer s" "assistantContent (render s) = assistantContent s"
  "appended (render s) = appended s" "input (render s) = input s"
  "selectedImage (render s) = selectedImage s" "isLoading (render s) = isLoading s"
  "fileInput (render s) = fileInput s" "messages (render s) = transcript s"
  "pending (render s) = []"
  by (simp_all add: render_def)

lemma transcript_render [simp]: "transcript (render s) = transcript s"
  by (simp add: transcript_def render_def)

lemma await_fields [simp]:
  "textBuffer (await s) = textBuffer s" "assistantContent (await s) = assistantContent s"
  "appended (await s) = appended s" "input (await s) = input s"
  "selectedImage (await s) = selectedImage s" "isLoading (await s) = isLoading s"
  "fileInput (await s) = fileInput s"
  by (simp_all add: await_def split: list.split)

lemma transcript_await [simp]: "transcript (await s) = transcript s"
  by (simp add: await_def transcript_def render_def split: list.split)

lemma render_buffer: "render (s\<lparr>textBuffer := b\<rparr>) = (render s)\<lparr>textBuffer := b\<rparr>"
  by (simp add: render_def transcript_def)

lemma await_buffer [simp]: "await (s\<lparr>textBuffer := b\<rparr>) = (await s)\<lparr>textBuffer := b\<rparr>"
  by (simp add: await_def render_buffer split: list.split)

lemma transcript_buffer [simp]: "transcript (s\<lparr>textBuffer := b\<rparr>) = transcript s"
  by (simp add: transcript_def)

lemma inner_loop_preserves:
  assumes buf: "\<And>s b. P s \<Longrightarrow> P (s\<lparr>textBuffer := b\<rparr>)"
    and app: "\<And>s f. P s \<Longrightarrow> P (append_content f s)"
  shows "P s \<Longrightarrow> P (inner_loop parse s)"
proof (induction s rule: inner_loop_induct)
  case (no_newline s)
  then show ?case by (simp add: inner_loop_no_newline)
next
  case (line s l rest)
  have r: "P (inner_loop parse (s\<lparr>textBuffer := rest\<rparr>))"
    by (rule line.IH) (simp_all add: buf line.prems)
  have a: "P (inner_loop parse (append_content f (s\<lparr>textBuffer := rest\<rparr>)))" for f
  proof (rule line.IH)
    show "textBuffer (append_content f (s\<lparr>textBuffer := rest\<rparr>)) = rest"
      by (simp add: append_content_def)
    show "P (append_content f (s\<lparr>textBuffer := rest\<rparr>))"
      by (intro app buf line.prems)
  qed
  show ?case
    unfolding inner_loop_line [OF line.hyps]
    by (simp add: r a buf line.prems split: line_kind.split attempt.split)
qed

lemma stream_loop_preserves:
  assumes buf: "\<And>s b. P s \<Longrightarrow> P (s\<lparr>textBuffer := b\<rparr>)"
    and app: "\<And>s f. P s \<Longrightarrow> P (append_content f s)"
    and wait: "\<And>s. P s \<Longrightarrow> P (await s)"
  shows "P s \<Longrightarrow> P (snd (stream_loop parse reads s))"
proof (induction reads arbitrary: s)
  case Nil
  then show ?case by (simp add: wait)
next
  case (Cons r reads)
  show ?case
  proof (cases r)
    case (Chunk v)
    have "P (inner_loop parse ((await s)\<lparr>textBuffer := textBuffer (await s) @ v\<rparr>))"
      by (rule inner_loop_preserves [of P, OF buf app]) (simp_all add: buf wait Cons.prems)
    then show ?thesis
      using Cons.IH Chunk by (simp add: Let_def)
  next
    case (ReadThrows e)
    with Cons.prems show ?thesis by (simp add: wait)
  qed
qed

lemma stream_loop_throw: "fst (stream_loop parse reads s) = first_throw reads"
  by (induction reads arbitrary: s rule: first_throw.induct) (simp_all add: Let_def)

lemma stream_loop_run:
  "snd (stream_loop parse (map Chunk chunks) s) = await (run parse chunks s)"
  by (induction chunks arbitrary: s) (simp_all add: Let_def)

lemma run_append: "run parse (xs @ ys) s = run parse ys (run parse xs s)"
  by (induction xs arbitrary: s) simp_all

lemma decode_run: "decode parse chunks st = await (run parse chunks (start st))"
  by (simp add: decode_def streaming_def stream_loop_run)

lemma start_fields [simp]: "textBuffer (start st) = []" "assistantContent (start st) = []"
  by (simp_all add: start_def sending_def)

section \<open>What holds while a send is in flight\<close>

lemma publish_last: "publish acc (base @ [m]) = base @ [assistantMessage\<lparr>content := acc\<rparr>]"
  by (simp add: publish_def)

lemma publish_frame:
  "publish acc prev = (if prev = [] then [] else butlast prev @ [assistantMessage\<lparr>content := acc\<rparr>])"
  by (cases prev rule: rev_cases) (simp_all add: publish_def)

lemma in_flight_sending: "in_flight st (sending st)"
proof -
  have "n < 2 \<Longrightarrow> [AppendMessage (userMessage st), AppendMessage assistantMessage] ! n \<noteq> ShowAccumulator"
    for n
    by (cases n) (simp_all add: less_Suc_eq)
  then show ?thesis
    by (simp add: in_flight_def sending_def transcript_def assistantMessage_def)
qed

lemma in_flight_buffer: "in_flight st s \<Longrightarrow> in_flight st (s\<lparr>textBuffer := b\<rparr>)"
  unfolding in_flight_def transcript_def by auto

lemma in_flight_append:
  assumes "in_flight st s"
  shows "in_flight st (append_content f s)"
proof -
  let ?base = "messages st @ [userMessage st]"
  from assms have any: "\<exists>x. fold (run_updater acc) (pending s) (messages s) =
      ?base @ [assistantMessage\<lparr>content := x\<rparr>]" for acc
    by (simp add: in_flight_def)
  have queued: "fold (run_updater acc) (pending s @ [ShowAccumulator]) (messages s) =
      ?base @ [assistantMessage\<lparr>content := acc\<rparr>]" for acc
  proof -
    from any [of acc] obtain x where
      "fold (run_updater acc) (pending s) (messages s) = ?base @ [assistantMessage\<lparr>content := x\<rparr>]"
      by blast
    then show ?thesis
      by (simp only: fold_append comp_apply fold_simps run_updater.simps publish_last)
  qed
  have earlier: "take (length fs) (appended s @ [f]) = fs" if "take (length fs) (appended s) = fs" for fs
  proof -
    from that have "length (take (length fs) (appended s)) = length fs"
      by (rule arg_cong)
    then have "length fs \<le> length (appended s)"
      by simp
    with that show ?thesis by simp
  qed
  from assms have rest: "input s = []" "selectedImage s = selectedImage st" "isLoading s"
      "fileInput s = fileInput st" "assistantContent s = concat (appended s)"
      "\<forall>(fs, t) \<in> set (shown s).
         t = ?base @ [assistantMessage\<lparr>content := concat fs\<rparr>] \<and> take (length fs) (appended s) = fs"
    by (simp_all add: in_flight_def)
  from assms have run_on: "\<exists>x. fold (run_updater acc) (take n (pending s)) (messages s) =
      ?base @ [assistantMessage\<lparr>content := x\<rparr>]"
    if "n < length (pending s)" "pending s ! n = ShowAccumulator" for acc n
    using that by (simp add: in_flight_def)
  show ?thesis
    unfolding in_flight_def
  proof (intro conjI allI impI)
    fix acc
    show "\<exists>x. fold (run_updater acc) (pending (append_content f s)) (messages (append_content f s)) =
        messages st @ [userMessage st, assistantMessage\<lparr>content := x\<rparr>]"
      using queued [of acc] by (intro exI [of _ acc]) (simp add: append_content_def)
  next
    fix acc n
    assume n: "n < length (pending (append_content f s))"
      and at: "pending (append_content f s) ! n = ShowAccumulator"
    show "\<exists>x. fold (run_updater acc) (take n (pending (append_content f s)))
                (messages (append_content f s)) =
        messages st @ [userMessage st, assistantMessage\<lparr>content := x\<rparr>]"
    proof (cases "n < length (pending s)")
      case True
      with at have "pending s ! n = ShowAccumulator"
        by (simp add: append_content_def nth_append)
      from run_on [OF True this, of acc] True show ?thesis
        by (simp add: append_content_def)
    next
      case False
      with n have "n = length (pending s)"
        by (simp add: append_content_def)
      with any [of acc] show ?thesis
        by (simp add: append_content_def)
    qed
  next
    show "transcript (append_content f s) =
        messages st @ [userMessage st, assistantMessage\<lparr>content := assistantContent (append_content f s)\<rparr>]"
      using queued [of "assistantContent s @ f"] by (simp add: append_content_def transcript_def)
    show "\<forall>(fs, t) \<in> set (shown (append_content f s)).
        t = messages st @ [userMessage st, assistantMessage\<lparr>content := concat fs\<rparr>] \<and>
        take (length fs) (appended (append_content f s)) = fs"
      using rest(6) earlier by (auto simp: append_content_def)
  qed (use rest in \<open>simp_all add: append_content_def\<close>)
qed

lemma in_flight_render:
  assumes "in_flight st s"
  shows "in_flight st (render s)"
proof -
  from assms have t: "transcript s =
      messages st @ [userMessage st, assistantMessage\<lparr>content := assistantContent s\<rparr>]"
    and acc: "assistantContent s = concat (appended s)"
    by (simp_all add: in_flight_def)
  from assms t acc show ?thesis
    by (auto simp: in_flight_def render_def transcript_def)
qed

lemma in_flight_await: "in_flight st s \<Longrightarrow> in_flight st (await s)"
proof -
  assume a: "in_flight st s"
  have "in_flight st (u\<lparr>renders := later\<rparr>)" if "in_flight st u" for u later
    using that unfolding in_flight_def transcript_def by auto
  with a in_flight_render [OF a] show ?thesis
    by (simp add: await_def split: list.split)
qed

lemma in_flight_stream:
  "in_flight st s \<Longrightarrow> in_flight st (snd (stream_loop parse reads s))"
  by (rule stream_loop_preserves [where P = "in_flight st"])
     (simp_all add: in_flight_buffer in_flight_append in_flight_await)

lemma in_flight_start: "in_flight st (start st)"
  unfolding start_def by (intro in_flight_await in_flight_sending)

lemma in_flight_streaming: "in_flight st (streaming parse reads st)"
  unfolding streaming_def by (intro in_flight_stream in_flight_start)

section \<open>Sending\<close>

lemma settle_fields:
  "messages (settle s) = transcript s" "input (settle s) = input s"
  "selectedImage (settle s) = selectedImage s" "isLoading (settle s) = isLoading s"
  "fileInput (settle s) = fileInput s"
  by (simp_all add: settle_def page.truncate_def render_def)

lemma failed_in_flight:
  assumes "in_flight st s"
  shows "snd (failed e s fx) = fx @ [ConsoleError e, ToastError (error_message e)]"
    and "messages (fst (failed e s fx)) = messages st @ [userMessage st]"
    and "input (fst (failed e s fx)) = []"
    and "selectedImage (fst (failed e s fx)) = selectedImage st"
    and "isLoading (fst (failed e s fx)) = False"
    and "fileInput (fst (failed e s fx)) = fileInput st"
proof -
  from assms have t: "transcript s =
      (messages st @ [userMessage st]) @ [assistantMessage\<lparr>content := assistantContent s\<rparr>]"
    by (simp add: in_flight_def)
  have "transcript (s\<lparr>pending := pending s @ [DropLast], isLoading := False\<rparr>) =
      slice (transcript s) 0 (- 1)"
    by (simp add: transcript_def)
  also have "\<dots> = messages st @ [userMessage st]"
    unfolding t slice_butlast by (rule butlast_snoc)
  finally show "messages (fst (failed e s fx)) = messages st @ [userMessage st]"
    by (simp add: failed_def settle_fields)
  from assms show "snd (failed e s fx) = fx @ [ConsoleError e, ToastError (error_message e)]"
    "input (fst (failed e s fx)) = []" "selectedImage (fst (failed e s fx)) = selectedImage st"
    "isLoading (fst (failed e s fx)) = False" "fileInput (fst (failed e s fx)) = fileInput st"
    by (simp_all add: failed_def settle_fields in_flight_def)
qed

lemma handleSend_failed:
  assumes img: "\<not> falsy (selectedImage st)" and fail: "failure net = Some e"
  shows "\<exists>s. in_flight st s \<and> handleSend parse net st = failed e s [Fetch (analysis_request st)]"
proof -
  note s0 = in_flight_start [of st]
  show ?thesis
  proof (cases net)
    case (Rejected e')
    with fail have "e' = e" by (simp add: failure_def)
    with Rejected img s0 show ?thesis
      by (auto simp: handleSend_def Let_def)
  next
    case (Resolved r)
    show ?thesis
    proof (cases "\<not> ok r \<or> body r = None")
      case True
      with fail Resolved have "response_error r = e" by (simp add: failure_def)
      moreover have "in_flight st (await (start st))"
        by (intro in_flight_await in_flight_start)
      ultimately show ?thesis
        using Resolved True img by (auto simp: handleSend_def Let_def)
    next
      case False
      then obtain reads where r: "ok r" "body r = Some reads"
        by auto
      with fail Resolved have ft: "first_throw reads = Some e"
        by (simp add: failure_def)
      define s where "s = streaming parse reads st"
      have run: "stream_loop parse reads (start st) = (Some e, s)"
        using stream_loop_throw [of parse reads "start st"] ft
        by (simp add: s_def streaming_def prod_eq_iff)
      have "in_flight st s"
        unfolding s_def by (rule in_flight_streaming)
      then show ?thesis
        using Resolved r run img by (auto simp: handleSend_def Let_def)
    qed
  qed
qed

lemma handleSend_failure:
  assumes img: "\<not> falsy (selectedImage st)" and fail: "failure net = Some e"
  shows "snd (handleSend parse net st) =
           [Fetch (analysis_request st), ConsoleError e, ToastError (error_message e)]"
    and "messages (fst (handleSend parse net st)) = messages st @ [userMessage st]"
    and "input (fst (handleSend parse net st)) = []"
    and "selectedImage (fst (handleSend parse net st)) = selectedImage st"
    and "isLoading (fst (handleSend parse net st)) = False"
    and "fileInput (fst (handleSend parse net st)) = fileInput st"
proof -
  from handleSend_failed [OF assms, of parse] obtain s where s: "in_flight st s"
    and eq: "handleSend parse net st = failed e s [Fetch (analysis_request st)]"
    by blast
  show "snd (handleSend parse net st) =
           [Fetch (analysis_request st), ConsoleError e, ToastError (error_message e)]"
    "messages (fst (handleSend parse net st)) = messages st @ [userMessage st]"
    "input (fst (handleSend parse net st)) = []"
    "selectedImage (fst (handleSend parse net st)) = selectedImage st"
    "isLoading (fst (handleSend parse net st)) = False"
    "fileInput (fst (handleSend parse net st)) = fileInput st"
    unfolding eq by (simp_all add: failed_in_flight [OF s])
qed

lemma failure_None:
  assumes "failure net = None"
  obtains r reads where "net = Resolved r" and "ok r" and "body r = Some reads"
    and "first_throw reads = None"
  using assms by (cases net) (auto simp: failure_def split: if_splits)

lemma handleSend_success:
  assumes img: "\<not> falsy (selectedImage st)" and fine: "failure net = None"
  shows "snd (handleSend parse net st) = [Fetch (analysis_request st)]"
    and "\<exists>reply. messages (fst (handleSend parse net st)) =
            messages st @ [userMessage st, assistantMessage\<lparr>content := reply\<rparr>]"
    and "input (fst (handleSend parse net st)) = []"
    and "selectedImage (fst (handleSend parse net st)) = None"
    and "isLoading (fst (handleSend parse net st)) = False"
    and "fileInput (fst (handleSend parse net st)) = map_option (\<lambda>v. []) (fileInput st)"
proof -
  from fine obtain r reads where net: "net = Resolved r" and r: "ok r" "body r = Some reads"
    and ft: "first_throw reads = None"
    by (rule failure_None)
  define s where "s = streaming parse reads st"
  have run: "stream_loop parse reads (start st) = (None, s)"
    using stream_loop_throw [of parse reads "start st"] ft
    by (simp add: s_def streaming_def prod_eq_iff)
  have "in_flight st s"
    unfolding s_def by (rule in_flight_streaming)
  then have s: "input s = []" "fileInput s = fileInput st"
    "transcript s = messages st @ [userMessage st, assistantMessage\<lparr>content := assistantContent s\<rparr>]"
    by (simp_all add: in_flight_def)
  have eq: "handleSend parse net st =
      (settle (s\<lparr>selectedImage := None, fileInput := map_option (\<lambda>v. []) (fileInput s),
                 isLoading := False\<rparr>),
       [Fetch (analysis_request st)])"
    using net r run img by (simp add: handleSend_def Let_def)
  have t: "transcript (s\<lparr>selectedImage := a, fileInput := b, isLoading := c\<rparr>) = transcript s"
    for a b c
    by (simp add: transcript_def)
  show "snd (handleSend parse net st) = [Fetch (analysis_request st)]"
    "input (fst (handleSend parse net st)) = []"
    "selectedImage (fst (handleSend parse net st)) = None"
    "isLoading (fst (handleSend parse net st)) = False"
    "fileInput (fst (handleSend parse net st)) = map_option (\<lambda>v. []) (fileInput st)"
    unfolding eq by (simp_all add: settle_fields s)
  show "\<exists>reply. messages (fst (handleSend parse net st)) =
            messages st @ [userMessage st, assistantMessage\<lparr>content := reply\<rparr>]"
    unfolding eq by (intro exI [of _ "assistantContent s"]) (simp add: settle_fields t s)
qed

lemma handleSend_transcript:
  assumes img: "\<not> falsy (selectedImage st)"
  shows "take (Suc (length (messages st))) (messages (fst (handleSend parse net st))) =
           messages st @ [userMessage st] \<and>
         hd (snd (handleSend parse net st)) = Fetch (analysis_request st)"
proof (cases "failure net")
  case None
  from handleSend_success(2) [OF img None, of parse] obtain reply where
    "messages (fst (handleSend parse net st)) =
       messages st @ [userMessage st, assistantMessage\<lparr>content := reply\<rparr>]"
    by blast
  then show ?thesis
    by (simp add: handleSend_success(1) [OF img None])
next
  case (Some e)
  show ?thesis
    by (simp add: handleSend_failure [OF img Some])
qed

section \<open>The text of a well-formed stream\<close>

lemma lines_from_append:
  "lines_from cur (x @ y) = lines_from cur x @ lines_from (open_line cur x) y"
  by (induction x arbitrary: cur) simp_all

lemma open_line_boundary: "open_line cur (x @ [CHR 0x0A]) = []"
  by (induction x arbitrary: cur) simp_all

lemma lines_from_no_newline: "CHR 0x0A \<notin> set t \<Longrightarrow> lines_from cur t = []"
  by (induction t arbitrary: cur) auto

lemma open_line_no_newline: "CHR 0x0A \<notin> set t \<Longrightarrow> open_line cur t = cur @ t"
  by (induction t arbitrary: cur) auto

lemma complete_lines_no_newline: "CHR 0x0A \<notin> set t \<Longrightarrow> complete_lines t = []"
  by (simp add: complete_lines_def lines_from_no_newline)

lemma complete_lines_line:
  "CHR 0x0A \<notin> set l \<Longrightarrow> complete_lines (l @ CHR 0x0A # rest) = l # complete_lines rest"
  by (simp add: complete_lines_def lines_from_append lines_from_no_newline open_line_no_newline)

lemma complete_lines_boundary:
  assumes "boundary q"
  shows "complete_lines (q @ y) = complete_lines q @ complete_lines y"
proof (cases "q = []")
  case True
  then show ?thesis by (simp add: complete_lines_def)
next
  case False
  with assms obtain x where q: "q = x @ [CHR 0x0A]"
    by (cases q rule: rev_cases) (auto simp: boundary_def)
  have "lines_from [] (q @ y) = lines_from [] q @ lines_from (open_line [] q) y"
    by (rule lines_from_append)
  also have "open_line [] q = []"
    unfolding q by (rule open_line_boundary)
  finally show ?thesis
    by (simp add: complete_lines_def)
qed

lemma complete_lines_prefix:
  "\<exists>more. complete_lines (x @ y) = complete_lines x @ more"
  by (simp add: complete_lines_def lines_from_append)

lemma well_formed_lines_append:
  "well_formed_lines parse e (xs @ ys) \<longleftrightarrow>
     well_formed_lines parse e xs \<and>
     well_formed_lines parse (e \<or> Sentinel \<in> classify ` set xs) ys"
  by (induction xs arbitrary: e) (auto split: line_kind.splits)

lemma ended_no_fragments:
  "well_formed_lines parse True ls \<Longrightarrow> concat (map (fragment_of parse) ls) = []"
  by (induction ls) (auto simp: fragment_of_def split: line_kind.splits)

lemma boundary_line: "boundary q \<Longrightarrow> boundary (l @ CHR 0x0A # q)"
  by (auto simp: boundary_def)

lemma boundary_split:
  assumes "boundary x" and "x \<noteq> []"
  obtains l x1 where "x = l @ CHR 0x0A # x1" and "CHR 0x0A \<notin> set l" and "boundary x1"
proof -
  from assms have "CHR 0x0A \<in> set x"
    using last_in_set [of x] by (auto simp: boundary_def)
  then obtain l x1 where x: "x = l @ CHR 0x0A # x1" and l: "CHR 0x0A \<notin> set l"
    by (auto dest: split_list_first)
  with assms(1) have "boundary x1"
    by (auto simp: boundary_def split: if_splits)
  with x l show ?thesis by (rule that)
qed

lemma inner_loop_consumes:
  assumes "well_formed_lines parse e (complete_lines (textBuffer s))"
  shows "\<exists>q. textBuffer s = q @ textBuffer (inner_loop parse s) \<and> boundary q \<and>
           assistantContent (inner_loop parse s) =
             assistantContent s @ concat (map (fragment_of parse) (complete_lines q)) \<and>
           (CHR 0x0A \<notin> set (textBuffer (inner_loop parse s)) \<or>
            Sentinel \<in> classify ` set (complete_lines q))"
  using assms
proof (induction s arbitrary: e rule: inner_loop_induct)
  case (no_newline s)
  have "textBuffer s = [] @ textBuffer (inner_loop parse s) \<and> boundary [] \<and>
        assistantContent (inner_loop parse s) =
          assistantContent s @ concat (map (fragment_of parse) (complete_lines [])) \<and>
        CHR 0x0A \<notin> set (textBuffer (inner_loop parse s))"
    using no_newline.hyps
    by (simp add: inner_loop_no_newline boundary_def complete_lines_def)
  then show ?case by blast
next
  case (line s l rest)
  note nl = line.hyps(1) and buf = line.hyps(2)
  have ls: "complete_lines (textBuffer s) = l # complete_lines rest"
    by (simp add: buf complete_lines_line [OF nl])
  have step: "\<exists>q. textBuffer s = q @ textBuffer (inner_loop parse t) \<and> boundary q \<and>
           assistantContent (inner_loop parse t) =
             assistantContent s @ concat (map (fragment_of parse) (complete_lines q)) \<and>
           (CHR 0x0A \<notin> set (textBuffer (inner_loop parse t)) \<or>
            Sentinel \<in> classify ` set (complete_lines q))"
    if t: "textBuffer t = rest" "assistantContent t = assistantContent s @ fragment_of parse l"
      and wf: "well_formed_lines parse e' (complete_lines rest)" for t e'
  proof -
    from line.IH [OF t(1), of e'] wf t(1)
    obtain q where q: "textBuffer t = q @ textBuffer (inner_loop parse t)" "boundary q"
        "assistantContent (inner_loop parse t) =
           assistantContent t @ concat (map (fragment_of parse) (complete_lines q))"
        "CHR 0x0A \<notin> set (textBuffer (inner_loop parse t)) \<or>
           Sentinel \<in> classify ` set (complete_lines q)"
      by auto
    have "textBuffer s = (l @ CHR 0x0A # q) @ textBuffer (inner_loop parse t)"
      using q(1) t(1) buf by simp
    moreover have "boundary (l @ CHR 0x0A # q)"
      using q(2) by (rule boundary_line)
    moreover have "complete_lines (l @ CHR 0x0A # q) = l # complete_lines q"
      by (rule complete_lines_line [OF nl])
    ultimately show ?thesis
      using q(3,4) t(2) by (intro exI [of _ "l @ CHR 0x0A # q"]) auto
  qed
  show ?case
  proof (cases "classify l")
    case Ignored
    with line.prems ls have wf: "well_formed_lines parse e (complete_lines rest)"
      by simp
    have fr: "fragment_of parse l = []"
      by (simp add: fragment_of_def Ignored)
    have eq: "inner_loop parse s = inner_loop parse (s\<lparr>textBuffer := rest\<rparr>)"
      by (simp add: inner_loop_line [OF nl buf] Ignored)
    show ?thesis
      unfolding eq by (rule step [OF _ _ wf]) (simp_all add: fr)
  next
    case Sentinel
    have res: "inner_loop parse s = s\<lparr>textBuffer := rest\<rparr>"
      by (simp add: inner_loop_line [OF nl buf] Sentinel)
    have one: "complete_lines (l @ [CHR 0x0A]) = [l]"
      using complete_lines_line [OF nl, of "[]"] by (simp add: complete_lines_def)
    have fr: "fragment_of parse l = []"
      by (simp add: fragment_of_def Sentinel)
    show ?thesis
      unfolding res
      by (intro exI [of _ "l @ [CHR 0x0A]"]) (simp add: boundary_def one fr Sentinel buf)
  next
    case (Event p)
    with line.prems ls have ok: "try_block parse p \<noteq> Threw"
      and wf: "well_formed_lines parse e (complete_lines rest)"
      by auto
    show ?thesis
    proof (cases "try_block parse p")
      case Threw
      with ok show ?thesis by simp
    next
      case Nothing
      have fr: "fragment_of parse l = []"
        by (simp add: fragment_of_def Event Nothing)
      have eq: "inner_loop parse s = inner_loop parse (s\<lparr>textBuffer := rest\<rparr>)"
        by (simp add: inner_loop_line [OF nl buf] Event Nothing)
      show ?thesis
        unfolding eq by (rule step [OF _ _ wf]) (simp_all add: fr)
    next
      case (Appended c)
      have fr: "fragment_of parse l = c"
        by (simp add: fragment_of_def Event Appended)
      have eq: "inner_loop parse s =
          inner_loop parse (append_content c (s\<lparr>textBuffer := rest\<rparr>))"
        by (simp add: inner_loop_line [OF nl buf] Event Appended)
      show ?thesis
        unfolding eq
        by (rule step [OF _ _ wf]) (simp_all add: fr append_content_def Let_def)
    qed
  qed
qed

lemma run_text:
  assumes "well_formed_lines parse e (complete_lines (textBuffer s @ concat chunks))"
    and "CHR 0x0A \<notin> set (textBuffer s) \<or> e"
  shows "assistantContent (run parse chunks s) =
           assistantContent s @
           concat (map (fragment_of parse) (complete_lines (textBuffer s @ concat chunks)))"
  using assms
proof (induction chunks arbitrary: s e)
  case Nil
  show ?case
  proof (cases "CHR 0x0A \<in> set (textBuffer s)")
    case False
    then show ?thesis by (simp add: complete_lines_no_newline)
  next
    case True
    with Nil have "well_formed_lines parse True (complete_lines (textBuffer s))"
      by auto
    then show ?thesis by (simp add: ended_no_fragments)
  qed
next
  case (Cons c chunks)
  let ?s1 = "(await s)\<lparr>textBuffer := textBuffer s @ c\<rparr>"
  let ?s2 = "inner_loop parse ?s1"
  have s1: "textBuffer ?s1 = textBuffer s @ c" "assistantContent ?s1 = assistantContent s"
    by simp_all
  obtain more where more: "complete_lines ((textBuffer s @ c) @ concat chunks) =
      complete_lines (textBuffer s @ c) @ more"
    using complete_lines_prefix by blast
  with Cons.prems(1) have "well_formed_lines parse e (complete_lines (textBuffer ?s1))"
    by (simp add: well_formed_lines_append)
  from inner_loop_consumes [OF this]
  obtain q where q: "textBuffer ?s1 = q @ textBuffer ?s2" "boundary q"
      "assistantContent ?s2 =
         assistantContent ?s1 @ concat (map (fragment_of parse) (complete_lines q))"
      "CHR 0x0A \<notin> set (textBuffer ?s2) \<or> Sentinel \<in> classify ` set (complete_lines q)"
    by blast
  have whole: "textBuffer s @ concat (c # chunks) = q @ (textBuffer ?s2 @ concat chunks)"
    using q(1) unfolding s1 by simp
  have ls: "complete_lines (textBuffer s @ concat (c # chunks)) =
      complete_lines q @ complete_lines (textBuffer ?s2 @ concat chunks)"
    unfolding whole by (rule complete_lines_boundary [OF q(2)])
  let ?e2 = "e \<or> Sentinel \<in> classify ` set (complete_lines q)"
  from Cons.prems(1) have wf2: "well_formed_lines parse ?e2
      (complete_lines (textBuffer ?s2 @ concat chunks))"
    unfolding ls by (simp add: well_formed_lines_append)
  from q(4) have ended: "CHR 0x0A \<notin> set (textBuffer ?s2) \<or> ?e2"
    by blast
  have "assistantContent (run parse (c # chunks) s) = assistantContent (run parse chunks ?s2)"
    by simp
  also have "\<dots> = assistantContent ?s2 @
      concat (map (fragment_of parse) (complete_lines (textBuffer ?s2 @ concat chunks)))"
    by (rule Cons.IH [OF wf2 ended])
  also have "\<dots> = assistantContent s @
      concat (map (fragment_of parse) (complete_lines (textBuffer s @ concat (c # chunks))))"
    unfolding ls q(3) s1 by simp
  finally show ?case .
qed

lemma decode_text:
  assumes "well_formed parse (concat chunks)"
  shows "assistantContent (decode parse chunks st) = stream_text parse (concat chunks)"
proof -
  have "assistantContent (run parse chunks (start st)) =
      assistantContent (start st) @
      concat (map (fragment_of parse) (complete_lines (textBuffer (start st) @ concat chunks)))"
    by (rule run_text [where e = False]) (use assms in \<open>simp_all add: well_formed_def\<close>)
  then show ?thesis
    by (simp add: decode_run stream_text_def)
qed

section \<open>Deleting a line from a chunk sequence\<close>

lemma rest_equal_refl: "rest_equal s s"
  by (simp add: rest_equal_def)

lemma rest_equal_buffers: "rest_equal (w\<lparr>textBuffer := a\<rparr>) (w\<lparr>textBuffer := b\<rparr>)"
  by (simp add: rest_equal_def)

lemma rest_equal_fields:
  assumes "rest_equal s t"
  shows "assistantContent s = assistantContent t" "messages s = messages t" "pending s = pending t"
proof -
  from assms have eq: "s\<lparr>textBuffer := []\<rparr> = t\<lparr>textBuffer := []\<rparr>"
    by (simp add: rest_equal_def)
  have "assistantContent (s\<lparr>textBuffer := []\<rparr>) = assistantContent (t\<lparr>textBuffer := []\<rparr>)"
    "messages (s\<lparr>textBuffer := []\<rparr>) = messages (t\<lparr>textBuffer := []\<rparr>)"
    "pending (s\<lparr>textBuffer := []\<rparr>) = pending (t\<lparr>textBuffer := []\<rparr>)"
    by (simp_all only: eq)
  then show "assistantContent s = assistantContent t" "messages s = messages t"
    "pending s = pending t"
    by simp_all
qed

lemma rest_equal_await:
  assumes "rest_equal s t"
  shows "rest_equal (await s) (await t)"
proof -
  from assms have "await (s\<lparr>textBuffer := []\<rparr>) = await (t\<lparr>textBuffer := []\<rparr>)"
    by (simp only: rest_equal_def)
  then show ?thesis
    by (simp add: rest_equal_def)
qed

lemma walk:
  assumes "boundary x"
  shows "\<exists>u x' stop. boundary x' \<and>
           (\<forall>z. inner_loop parse (s\<lparr>textBuffer := x @ z\<rparr>) =
                 (if stop then u\<lparr>textBuffer := x' @ z\<rparr>
                  else inner_loop parse (u\<lparr>textBuffer := z\<rparr>)))"
  using assms
proof (induction "length x" arbitrary: x s rule: less_induct)
  case less
  show ?case
  proof (cases "x = []")
    case True
    have "boundary [] \<and>
        (\<forall>z. inner_loop parse (s\<lparr>textBuffer := x @ z\<rparr>) =
              (if False then s\<lparr>textBuffer := [] @ z\<rparr> else inner_loop parse (s\<lparr>textBuffer := z\<rparr>)))"
      using True by (simp add: boundary_def)
    then show ?thesis by blast
  next
    case False
    with less.prems obtain l x1 where x: "x = l @ CHR 0x0A # x1" and nl: "CHR 0x0A \<notin> set l"
      and b1: "boundary x1"
      by (rule boundary_split)
    have shorter: "length x1 < length x"
      by (simp add: x)
    have line: "inner_loop parse (s\<lparr>textBuffer := x @ z\<rparr>) =
       (case classify l of
          Ignored \<Rightarrow> inner_loop parse (s\<lparr>textBuffer := x1 @ z\<rparr>)
        | Sentinel \<Rightarrow> s\<lparr>textBuffer := x1 @ z\<rparr>
        | Event jsonStr \<Rightarrow>
            (case try_block parse jsonStr of
               Threw \<Rightarrow> s\<lparr>textBuffer := (strip_cr l @ CHR 0x0A # x1) @ z\<rparr>
             | Nothing \<Rightarrow> inner_loop parse (s\<lparr>textBuffer := x1 @ z\<rparr>)
             | Appended c \<Rightarrow> inner_loop parse ((append_content c s)\<lparr>textBuffer := x1 @ z\<rparr>)))" for z
    proof -
      have "textBuffer (s\<lparr>textBuffer := x @ z\<rparr>) = l @ CHR 0x0A # (x1 @ z)"
        by (simp add: x)
      from inner_loop_line [OF nl this, of parse] show ?thesis
        by (simp add: append_content_buffer newline_def split: line_kind.split attempt.split)
    qed
    have continue: "\<exists>u x' stop. boundary x' \<and>
           (\<forall>z. inner_loop parse (t\<lparr>textBuffer := x1 @ z\<rparr>) =
                 (if stop then u\<lparr>textBuffer := x' @ z\<rparr>
                  else inner_loop parse (u\<lparr>textBuffer := z\<rparr>)))" for t
      by (rule less.hyps [OF shorter b1])
    have halt: "\<exists>u x' stop. boundary x' \<and>
           (\<forall>z. t\<lparr>textBuffer := y @ z\<rparr> =
                 (if stop then u\<lparr>textBuffer := x' @ z\<rparr>
                  else inner_loop parse (u\<lparr>textBuffer := z\<rparr>)))" if "boundary y" for t y
      using that by (intro exI [of _ t] exI [of _ y] exI [of _ True]) simp
    show ?thesis
    proof (cases "classify l")
      case Ignored
      then show ?thesis
        using continue [of s] by (simp add: line)
    next
      case Sentinel
      then show ?thesis
        using halt [OF b1, of s] by (simp add: line)
    next
      case (Event p)
      show ?thesis
      proof (cases "try_block parse p")
        case Threw
        have "boundary (strip_cr l @ CHR 0x0A # x1)"
          using b1 by (rule boundary_line)
        from halt [OF this, of s] Event Threw show ?thesis
          by (simp add: line)
      next
        case Nothing
        with Event show ?thesis
          using continue [of s] by (simp add: line)
      next
        case (Appended c)
        with Event show ?thesis
          using continue [of "append_content c s"] by (simp add: line)
      qed
    qed
  qed
qed

lemma after_line:
  assumes nl: "CHR 0x0A \<notin> set l" and skip: "comment_or_blank l" and "boundary x"
  shows "rest_equal
           (run parse post (inner_loop parse (w\<lparr>textBuffer := x @ l @ CHR 0x0A # y\<rparr>)))
           (run parse post (inner_loop parse (w\<lparr>textBuffer := x @ y\<rparr>)))"
  using assms(3)
proof (induction post arbitrary: w x y)
  case Nil
  from walk [OF Nil, of parse w] obtain u x' stop where
    w: "\<And>z. inner_loop parse (w\<lparr>textBuffer := x @ z\<rparr>) =
           (if stop then u\<lparr>textBuffer := x' @ z\<rparr> else inner_loop parse (u\<lparr>textBuffer := z\<rparr>))"
    by blast
  show ?case
    by (simp add: w skip_line [OF nl skip] rest_equal_buffers rest_equal_refl)
next
  case (Cons c post)
  from walk [OF Cons.prems, of parse w] obtain u x' stop where b: "boundary x'" and
    w: "\<And>z. inner_loop parse (w\<lparr>textBuffer := x @ z\<rparr>) =
           (if stop then u\<lparr>textBuffer := x' @ z\<rparr> else inner_loop parse (u\<lparr>textBuffer := z\<rparr>))"
    by blast
  show ?case
  proof (cases stop)
    case True
    with Cons.IH [OF b, where w = "await u" and y = "y @ c"] show ?thesis
      by (simp add: w)
  next
    case False
    then show ?thesis
      by (simp add: w skip_line [OF nl skip] rest_equal_refl)
  qed
qed

lemma inside_line:
  assumes "CHR 0x0A \<notin> set (p @ concat mids @ q)" and "comment_or_blank (p @ concat mids @ q)"
    and "boundary x"
  shows "rest_equal
           (run parse (mids @ [q @ CHR 0x0A # b] @ post) (w\<lparr>textBuffer := x @ p\<rparr>))
           (run parse (map (\<lambda>m. []) mids @ [b] @ post) (w\<lparr>textBuffer := x\<rparr>))"
  using assms
proof (induction mids arbitrary: w x p)
  case Nil
  then have nl: "CHR 0x0A \<notin> set (p @ q)" and skip: "comment_or_blank (p @ q)"
    by simp_all
  from after_line [OF nl skip Nil(3), where w = "await w" and y = b and parse = parse and post = post]
  show ?case
    by simp
next
  case (Cons m mids)
  from Cons.prems have nl: "CHR 0x0A \<notin> set ((p @ m) @ concat mids @ q)"
    and skip: "comment_or_blank ((p @ m) @ concat mids @ q)"
    and pm: "CHR 0x0A \<notin> set (p @ m)"
    by simp_all
  from walk [OF Cons.prems(3), of parse "await w"] obtain u x' stop where b: "boundary x'" and
    w: "\<And>z. inner_loop parse ((await w)\<lparr>textBuffer := x @ z\<rparr>) =
           (if stop then u\<lparr>textBuffer := x' @ z\<rparr> else inner_loop parse (u\<lparr>textBuffer := z\<rparr>))"
    by blast
  have empty: "boundary []"
    by (simp add: boundary_def)
  show ?case
  proof (cases stop)
    case True
    with Cons.IH [OF nl skip b, where w = u] w [of "p @ m"] w [of "[]"] show ?thesis
      by simp
  next
    case False
    have "inner_loop parse (u\<lparr>textBuffer := p @ m\<rparr>) = u\<lparr>textBuffer := p @ m\<rparr>"
      "inner_loop parse (u\<lparr>textBuffer := []\<rparr>) = u\<lparr>textBuffer := []\<rparr>"
      using pm by (simp_all add: inner_loop_no_newline)
    with False Cons.IH [OF nl skip empty, where w = u] w [of "p @ m"] w [of "[]"] show ?thesis
      by simp
  qed
qed

lemma inner_loop_boundary:
  assumes "boundary (textBuffer s)"
  shows "boundary (textBuffer (inner_loop parse s))"
proof -
  from walk [OF assms, of parse s] obtain u x' stop where b: "boundary x'" and
    w: "\<And>z. inner_loop parse (s\<lparr>textBuffer := textBuffer s @ z\<rparr>) =
           (if stop then u\<lparr>textBuffer := x' @ z\<rparr> else inner_loop parse (u\<lparr>textBuffer := z\<rparr>))"
    by blast
  from w [of "[]"] b show ?thesis
    by (cases stop) (simp_all add: inner_loop_no_newline boundary_def)
qed

lemma run_boundary:
  assumes "boundary t \<longrightarrow> boundary (textBuffer s)"
  shows "boundary (t @ concat chunks) \<longrightarrow> boundary (textBuffer (run parse chunks s))"
  using assms
proof (induction chunks arbitrary: s t)
  case Nil
  then show ?case by simp
next
  case (Cons c chunks)
  have "boundary (t @ c) \<longrightarrow> boundary (textBuffer s @ c)"
    using Cons.prems by (cases "c = []") (simp_all add: boundary_def)
  then have "boundary (t @ c) \<longrightarrow>
      boundary (textBuffer (inner_loop parse ((await s)\<lparr>textBuffer := textBuffer s @ c\<rparr>)))"
    by (auto intro: inner_loop_boundary)
  from Cons.IH [OF this] show ?case
    by simp
qed

lemma before_line:
  assumes "boundary (concat pre @ a)"
  shows "boundary (textBuffer (run parse pre (start st)) @ a)"
proof (cases "a = []")
  case True
  have "boundary ([] @ concat pre) \<longrightarrow> boundary (textBuffer (run parse pre (start st)))"
    by (rule run_boundary) (simp add: boundary_def)
  with assms True show ?thesis by simp
next
  case False
  with assms show ?thesis by (simp add: boundary_def)
qed

lemma line_in_one_chunk:
  assumes "CHR 0x0A \<notin> set l" and "comment_or_blank l" and "boundary (concat pre @ a)"
  shows "rest_equal (decode parse (pre @ [a @ l @ newline @ b] @ post) st)
                    (decode parse (pre @ [a @ b] @ post) st)"
proof -
  let ?s = "run parse pre (start st)"
  have x: "boundary (textBuffer ?s @ a)"
    using assms(3) by (rule before_line)
  from after_line [OF assms(1,2) x, where w = "await ?s" and y = b and parse = parse and post = post]
  show ?thesis
    by (simp add: decode_run run_append newline_def rest_equal_await)
qed

lemma line_across_chunks:
  assumes "CHR 0x0A \<notin> set (p @ concat mids @ q)" and "comment_or_blank (p @ concat mids @ q)"
    and "boundary (concat pre @ a)"
  shows "rest_equal (decode parse (pre @ [a @ p] @ mids @ [q @ newline @ b] @ post) st)
                    (decode parse (pre @ [a] @ map (\<lambda>m. []) mids @ [b] @ post) st)"
proof -
  let ?s = "run parse pre (start st)"
  have x: "boundary (textBuffer ?s @ a)"
    using assms(3) by (rule before_line)
  have nl: "CHR 0x0A \<notin> set ([] @ concat (p # mids) @ q)"
    and skip: "comment_or_blank ([] @ concat (p # mids) @ q)"
    using assms(1,2) by simp_all
  from inside_line [OF nl skip x, where w = ?s and b = b and parse = parse and post = post]
  show ?thesis
    by (simp add: decode_run run_append newline_def rest_equal_await)
qed
section \<open>The worked instances\<close>

lemma sample_page_facts:
  "\<not> falsy (selectedImage sample_page)" "trim (input sample_page) = ''what is this?''"
  "messages sample_page = []"
  "selectedImage sample_page = Some ''data:image/png;base64,iVBORw0KGgo=''"
  "fileInput sample_page = Some ''cat.png''"
  by (simp_all add: sample_page_def falsy_def trim_def is_space_def)

lemma blank_page_facts:
  "\<not> falsy (selectedImage blank_page)" "trim (input blank_page) = []"
  "messages blank_page = []"
  "selectedImage blank_page = Some ''data:image/png;base64,iVBORw0KGgo=''"
  by (simp_all add: blank_page_def sample_page_def falsy_def trim_def is_space_def)

lemma sample_messages:
  "userMessage sample_page = asked"
  "analysis_request sample_page =
     \<lparr>imageBase64 = ''data:image/png;base64,iVBORw0KGgo='', prompt = Some ''what is this?''\<rparr>"
  by (simp_all add: userMessage_def analysis_request_def asked_def sample_page_facts)

lemma sample_failures:
  "failure rate_limited = Some (JsError ''rate limited'')"
  "failure error_code = Some (JsError ''429,,busy'')"
  "failure error_without_text = Some PrimitiveTypeError"
  "failure dropped_stream = Some (JsError ''network error'')"
  "failure finished_stream = None"
  by (simp_all add: failure_def rate_limited_def error_code_def error_without_text_def
        dropped_stream_def finished_stream_def response_error_def)

lemma try_block_content_event:
  "parse p = Some (content_event c) \<Longrightarrow> c \<noteq> [] \<Longrightarrow> try_block parse p = Appended c"
  by (simp add: try_block_def delta_content_def content_event_def opt_chain_def)

lemma classify_cat_line:
  \<open>classify ''data: {"choices":[{"delta":{"content":"cat"}}]}'' =
     Event ''{"choices":[{"delta":{"content":"cat"}}]}''\<close>
  by code_simp

lemma classify_late_line:
  \<open>classify ''data: {"choices":[{"delta":{"content":"late"}}]}'' =
     Event ''{"choices":[{"delta":{"content":"late"}}]}''\<close>
  by code_simp

lemma classify_done_line: "classify ''data: [DONE]'' = Sentinel"
  by code_simp

lemma cat_in_two_chunks:
  assumes \<open>parse ''{"choices":[{"delta":{"content":"cat"}}]}'' = Some (content_event ''cat'')\<close>
  shows \<open>assistantContent
           (decode parse [''data: {"choices":[{"delta":{"con'',
                          ''tent":"cat"}}]}'' @ newline] st) = ''cat''\<close>
proof -
  let ?c1 = \<open>''data: {"choices":[{"delta":{"con''\<close>
  let ?c2 = \<open>''tent":"cat"}}]}'' @ newline\<close>
  let ?l = \<open>''data: {"choices":[{"delta":{"content":"cat"}}]}''\<close>
  define s0 where "s0 = await (start st)"
  define s1 where "s1 = inner_loop parse (s0\<lparr>textBuffer := ?c1\<rparr>)"
  define s2 where "s2 = inner_loop parse ((await s1)\<lparr>textBuffer := textBuffer s1 @ ?c2\<rparr>)"
  have run: "decode parse [?c1, ?c2] st = await s2"
    unfolding decode_run s2_def s1_def s0_def by simp
  have first: "s1 = s0\<lparr>textBuffer := ?c1\<rparr>"
    unfolding s1_def by (rule inner_loop_no_newline) simp
  have nl: "CHR 0x0A \<notin> set ?l"
    by simp
  have tb: "try_block parse (drop 6 ?l) = Appended ''cat''"
    using assms by (simp add: try_block_content_event)
  have buf: "textBuffer ((await s1)\<lparr>textBuffer := textBuffer s1 @ ?c2\<rparr>) = ?l @ newline"
    by (simp add: first)
  have "s2 = append_content ''cat'' ((await s1)\<lparr>textBuffer := []\<rparr>)"
    unfolding s2_def inner_loop_last_line [OF nl buf] classify_cat_line
    using tb by simp
  then have "assistantContent s2 = assistantContent s1 @ ''cat''"
    by (simp add: append_content_def)
  then show ?thesis
    unfolding run by (simp add: first s0_def)
qed

lemma sentinel_then_line:
  assumes nl: "CHR 0x0A \<notin> set l" and ev: "classify l = Event p" and tb: "try_block parse p = Appended c"
  shows "assistantContent (decode parse [''data: [DONE]'' @ newline, l @ newline] st) = c"
    and "assistantContent (decode parse [''data: [DONE]'' @ newline @ l @ newline, []] st) = c"
    and "assistantContent (decode parse [''data: [DONE]'' @ newline @ l @ newline] st) = []"
proof -
  let ?d = "''data: [DONE]''"
  have dnl: "CHR 0x0A \<notin> set ?d"
    by simp
  have line: "inner_loop parse s = append_content c (s\<lparr>textBuffer := []\<rparr>)"
    if "textBuffer s = l @ newline" for s
    by (simp add: inner_loop_last_line [OF nl that] ev tb)
  have done1: "inner_loop parse s = s\<lparr>textBuffer := []\<rparr>" if "textBuffer s = ?d @ newline" for s
    by (simp add: inner_loop_last_line [OF dnl that] classify_done_line)
  have done2: "inner_loop parse s = s\<lparr>textBuffer := l @ newline\<rparr>"
    if "textBuffer s = ?d @ newline @ l @ newline" for s
  proof -
    from that have "textBuffer s = ?d @ CHR 0x0A # (l @ newline)"
      by (simp add: newline_def)
    then show ?thesis
      by (simp add: inner_loop_line [OF dnl] classify_done_line)
  qed
  define s0 where "s0 = await (start st)"
  have s0: "assistantContent s0 = []"
    by (simp add: s0_def)
  define a where "a = inner_loop parse (s0\<lparr>textBuffer := ?d @ newline\<rparr>)"
  define a2 where "a2 = inner_loop parse ((await a)\<lparr>textBuffer := textBuffer a @ l @ newline\<rparr>)"
  have run_a: "decode parse [?d @ newline, l @ newline] st = await a2"
    unfolding decode_run a2_def a_def s0_def by simp
  have a: "a = s0\<lparr>textBuffer := []\<rparr>"
    unfolding a_def by (rule trans [OF done1]) simp_all
  have "a2 = append_content c ((await a)\<lparr>textBuffer := []\<rparr>)"
    unfolding a2_def by (rule trans [OF line]) (simp_all add: a)
  then show "assistantContent (decode parse [?d @ newline, l @ newline] st) = c"
    unfolding run_a by (simp add: append_content_def a s0)
  define b where "b = inner_loop parse (s0\<lparr>textBuffer := ?d @ newline @ l @ newline\<rparr>)"
  define b2 where "b2 = inner_loop parse ((await b)\<lparr>textBuffer := textBuffer b @ []\<rparr>)"
  have run_b2: "decode parse [?d @ newline @ l @ newline, []] st = await b2"
    unfolding decode_run b2_def b_def s0_def by simp
  have run_b: "decode parse [?d @ newline @ l @ newline] st = await b"
    unfolding decode_run b_def s0_def by simp
  have b: "b = s0\<lparr>textBuffer := l @ newline\<rparr>"
    unfolding b_def by (rule trans [OF done2]) simp_all
  have "b2 = append_content c ((await b)\<lparr>textBuffer := []\<rparr>)"
    unfolding b2_def by (rule trans [OF line]) (simp_all add: b)
  then show "assistantContent (decode parse [?d @ newline @ l @ newline, []] st) = c"
    unfolding run_b2 by (simp add: append_content_def b s0)
  show "assistantContent (decode parse [?d @ newline @ l @ newline] st) = []"
    unfolding run_b by (simp add: b s0)
qed

lemma stalled_facts:
  \<open>textBuffer stalled = ''data: {"choices":[{"delta"'' @ newline @ '': ping''\<close>
  \<open>classify ''data: {"choices":[{"delta"'' = Event ''{"choices":[{"delta"''\<close>
  \<open>strip_cr ''data: {"choices":[{"delta"'' = ''data: {"choices":[{"delta"''\<close>
  \<open>sample_parse ''{"choices":[{"delta"'' = None\<close>
  \<open>sample_parse ''{"choices":[{"delta":{"content":"cat"}}]}'' = Some (content_event ''cat'')\<close>
  by (simp add: stalled_def) code_simp+

lemma shared_read_run:
  "appended (streaming sample_parse shared_read sample_page) = [''cat'', ''late'']"
  "shown (streaming sample_parse shared_read sample_page) =
     [([], [asked, \<lparr>role = assistant, content = [], imageUrl = None\<rparr>]),
      ([''cat'', ''late''], [asked, \<lparr>role = assistant, content = ''catlate'', imageUrl = None\<rparr>]),
      ([''cat'', ''late''], [asked, \<lparr>role = assistant, content = ''catlate'', imageUrl = None\<rparr>])]"
  by code_simp+

lemma shared_read_quiet:
  "appended (streaming sample_parse shared_read quiet_page) = [''cat'', ''late'']"
  "messages (streaming sample_parse shared_read quiet_page) = []"
  "pending (streaming sample_parse shared_read quiet_page) =
     [AppendMessage asked, AppendMessage assistantMessage, ShowAccumulator, ShowAccumulator]"
  "shown (streaming sample_parse shared_read quiet_page) = []"
  by code_simp+

lemma two_fragments_run:
  "shown (streaming sample_parse two_fragments sample_page) =
     [([], [asked, \<lparr>role = assistant, content = [], imageUrl = None\<rparr>]),
      ([''cat''], [asked, \<lparr>role = assistant, content = ''cat'', imageUrl = None\<rparr>]),
      ([''cat'', ''late''], [asked, \<lparr>role = assistant, content = ''catlate'', imageUrl = None\<rparr>])]"
  by code_simp

lemma cat_stream_well_formed: "well_formed sample_parse (concat cat_stream_chunks)"
  by code_simp

lemma cat_stream_unsplit:
  "assistantContent (decode sample_parse [concat cat_stream_chunks] sample_page) = ''cat''"
  by code_simp

lemma ping_line_facts:
  "CHR 0x0A \<notin> set ping_line" "comment_or_blank ping_line" "boundary (concat [cat_chunk] @ [])"
  "ping_line = '': ke'' @ concat [''ep-'', ''ali''] @ (''ve'' @ carriage_return)"
  by code_simp+

lemma without_ping:
  "assistantContent (decode sample_parse ([cat_chunk] @ [[] @ late_chunk] @ []) sample_page) = ''catlate''"
  "assistantContent
     (decode sample_parse
        ([cat_chunk] @ [[]] @ map (\<lambda>m. []) [''ep-'', ''ali''] @ [late_chunk] @ []) sample_page) =
   ''catlate''"
  by code_simp+

section \<open>The claims\<close>

text \<open>
  Claim C1, at the failing input.  The sentinel only ends the inner loop: an event line
  that follows it is decoded and appended as soon as one more read arrives, whether the
  line came in that read or was already in the buffer; only when no read follows does
  the line stay undecoded.
\<close>

theorem sentinel_only_pauses_decoding:
  "CHR 0x0A \<notin> set l \<and> classify l = Event p \<and> try_block parse p = Appended c \<longrightarrow>
     assistantContent (decode parse [''data: [DONE]'' @ newline, l @ newline] st) = c \<and>
     assistantContent (decode parse [''data: [DONE]'' @ newline @ l @ newline, []] st) = c \<and>
     assistantContent (decode parse [''data: [DONE]'' @ newline @ l @ newline] st) = []"
  using sentinel_then_line [of l p parse c st] by simp

theorem sentinel_only_pauses_decoding_witness:
  \<open>CHR 0x0A \<notin> set ''data: {"choices":[{"delta":{"content":"late"}}]}'' \<and>
    classify ''data: {"choices":[{"delta":{"content":"late"}}]}'' =
      Event ''{"choices":[{"delta":{"content":"late"}}]}'' \<and>
    try_block sample_parse ''{"choices":[{"delta":{"content":"late"}}]}'' = Appended ''late'' \<and>
    assistantContent
      (decode sample_parse
         [''data: [DONE]'' @ newline,
          ''data: {"choices":[{"delta":{"content":"late"}}]}'' @ newline] sample_page) = ''late'' \<and>
    assistantContent
      (decode sample_parse
         [''data: [DONE]'' @ newline @
          ''data: {"choices":[{"delta":{"content":"late"}}]}'' @ newline, []] sample_page) = ''late'' \<and>
    assistantContent
      (decode sample_parse
         [''data: [DONE]'' @ newline @
          ''data: {"choices":[{"delta":{"content":"late"}}]}'' @ newline] sample_page) = []\<close>
proof -
  have tb: \<open>try_block sample_parse ''{"choices":[{"delta":{"content":"late"}}]}'' = Appended ''late''\<close>
    by code_simp
  show ?thesis
    using sentinel_only_pauses_decoding
      [of \<open>''data: {"choices":[{"delta":{"content":"late"}}]}''\<close>
          \<open>''{"choices":[{"delta":{"content":"late"}}]}''\<close> sample_parse \<open>''late''\<close> sample_page]
    by (simp add: classify_late_line tb)
qed

text \<open>
  Claim C2.  For a well-formed stream (the \<^verbatim>\<open>try\<close> block succeeds on the payload
  of every complete \<^verbatim>\<open>data: \<close> line, and no event follows the sentinel), however its
  text is cut into chunks, at line ends, inside a line or inside a JSON token, the
  decoder accumulates the same text as when the whole stream arrives as one chunk.
\<close>

theorem chunking_does_not_matter:
  assumes "well_formed parse (concat chunks)"
  shows "assistantContent (decode parse chunks st) =
         assistantContent (decode parse [concat chunks] st)"
proof -
  from assms have "well_formed parse (concat [concat chunks])"
    by simp
  then have "assistantContent (decode parse [concat chunks] st) =
      stream_text parse (concat [concat chunks])"
    by (rule decode_text)
  with decode_text [OF assms, of st] show ?thesis
    by simp
qed

theorem chunking_does_not_matter_witness:
  "well_formed sample_parse (concat cat_stream_chunks) \<and>
   assistantContent (decode sample_parse cat_stream_chunks sample_page) = ''cat'' \<and>
   assistantContent (decode sample_parse [concat cat_stream_chunks] sample_page) = ''cat''"
  using chunking_does_not_matter [OF cat_stream_well_formed, of sample_page]
  by (simp add: cat_stream_well_formed cat_stream_unsplit)

text \<open>
  Claim C3.  When \<^verbatim>\<open>JSON.parse\<close> fails on the payload of an extracted line, the inner
  loop stops and leaves the state as it was but for the buffer, which holds the line
  (without the carriage return that was stripped from it), a newline and the rest; the
  line put back carries the same payload.  For the two chunks of the example, the second
  completing the JSON object the first began, the accumulated text is \<^verbatim>\<open>cat\<close>.
\<close>

theorem parse_failure_keeps_the_line:
  \<open>(CHR 0x0A \<notin> set l \<and> textBuffer s = l @ newline @ rest \<and> classify l = Event jsonStr \<and>
     parse jsonStr = None \<longrightarrow>
       inner_loop parse s = s\<lparr>textBuffer := strip_cr l @ newline @ rest\<rparr> \<and>
       classify (strip_cr l) = Event jsonStr) \<and>
    (parse ''{"choices":[{"delta":{"content":"cat"}}]}'' = Some (content_event ''cat'') \<longrightarrow>
       assistantContent
         (decode parse [''data: {"choices":[{"delta":{"con'',
                        ''tent":"cat"}}]}'' @ newline] st) = ''cat'')\<close>
proof (intro conjI impI)
  assume a: "CHR 0x0A \<notin> set l \<and> textBuffer s = l @ newline @ rest \<and>
     classify l = Event jsonStr \<and> parse jsonStr = None"
  then have nl: "CHR 0x0A \<notin> set l" and buf: "textBuffer s = l @ CHR 0x0A # rest"
    by (simp_all add: newline_def)
  from a have "try_block parse jsonStr = Threw"
    by (simp add: try_block_def)
  with a show "inner_loop parse s = s\<lparr>textBuffer := strip_cr l @ newline @ rest\<rparr>"
    by (simp add: inner_loop_line [OF nl buf])
  from a show "classify (strip_cr l) = Event jsonStr"
    by (simp add: classify_strip_cr)
next
  assume \<open>parse ''{"choices":[{"delta":{"content":"cat"}}]}'' = Some (content_event ''cat'')\<close>
  then show \<open>assistantContent
         (decode parse [''data: {"choices":[{"delta":{"con'',
                        ''tent":"cat"}}]}'' @ newline] st) = ''cat''\<close>
    by (rule cat_in_two_chunks)
qed

theorem parse_failure_keeps_the_line_witness:
  \<open>CHR 0x0A \<notin> set ''data: {"choices":[{"delta"'' \<and>
    textBuffer stalled = ''data: {"choices":[{"delta"'' @ newline @ '': ping'' \<and>
    classify ''data: {"choices":[{"delta"'' = Event ''{"choices":[{"delta"'' \<and>
    sample_parse ''{"choices":[{"delta"'' = None \<and>
    inner_loop sample_parse stalled = stalled \<and>
    sample_parse ''{"choices":[{"delta":{"content":"cat"}}]}'' = Some (content_event ''cat'') \<and>
    assistantContent
      (decode sample_parse [''data: {"choices":[{"delta":{"con'',
                            ''tent":"cat"}}]}'' @ newline] sample_page) = ''cat''\<close>
proof -
  have same: \<open>stalled\<lparr>textBuffer := ''data: {"choices":[{"delta"'' @ newline @ '': ping''\<rparr> = stalled\<close>
    by (simp add: stalled_def)
  show ?thesis
    using parse_failure_keeps_the_line
      [of \<open>''data: {"choices":[{"delta"''\<close> stalled \<open>'': ping''\<close> \<open>''{"choices":[{"delta"''\<close>
          sample_parse sample_page]
    by (simp add: stalled_facts same)
qed




text \<open>
  Claim C5.  A send with no image selected is rejected by validation, whatever the text
  input holds: the page state, and with it the transcript, is returned unchanged, and the
  only effect is a validation toast, so no request is issued.
\<close>

theorem send_without_image_is_rejected:
  assumes "falsy (selectedImage st)"
  shows "handleSend parse net st =
     (st, [ToastError (Literal (if trim (input st) = []
                                then ''Please upload an image or enter a message''
                                else ''Please upload an image to analyze''))])"
  using assms by (simp add: handleSend_def)

theorem send_without_image_is_rejected_witness:
  "falsy (selectedImage (sample_page\<lparr>selectedImage := None\<rparr>)) \<and>
   handleSend sample_parse rate_limited (sample_page\<lparr>selectedImage := None\<rparr>) =
     (sample_page\<lparr>selectedImage := None\<rparr>,
      [ToastError (Literal ''Please upload an image to analyze'')])"
proof -
  have f: "falsy (selectedImage (sample_page\<lparr>selectedImage := None\<rparr>))"
    by (simp add: falsy_def)
  have t: "trim (input (sample_page\<lparr>selectedImage := None\<rparr>)) \<noteq> []"
    by (simp add: sample_page_def trim_def is_space_def)
  show ?thesis
    using send_without_image_is_rejected [OF f, of sample_parse rate_limited] f t by simp
qed

text \<open>
  Claim C6.  The updater of the stream loop gives the transcript it is run on with the
  last element replaced by the assistant message that holds the accumulator, and every
  other element as it was.  The accumulator it holds is the one the variable has when
  React runs the updater, at a render after the call: the concatenation, in decode
  order, of all the fragments appended by then.  While a send is in flight, each updater
  of the loop in the queue is run on the transcript before the send, the user message
  and the assistant message, so only the content of the assistant message changes, and
  it becomes the whole accumulator.  Hence what React shows at its next render, and what
  every render so far showed, is that transcript with all the fragments appended before
  the render in the assistant message: the first fragments of the list, never one
  fragment alone.
\<close>

theorem updates_show_full_accumulator:
  "run_updater acc ShowAccumulator prev =
     (if prev = [] then [] else butlast prev @ [assistantMessage\<lparr>content := acc\<rparr>]) \<and>
   assistantContent (streaming parse reads st) = concat (appended (streaming parse reads st)) \<and>
   (\<forall>n < length (pending (streaming parse reads st)).
      pending (streaming parse reads st) ! n = ShowAccumulator \<longrightarrow>
        (\<exists>x. fold (run_updater acc) (take n (pending (streaming parse reads st)))
                (messages (streaming parse reads st)) =
              messages st @ [userMessage st, assistantMessage\<lparr>content := x\<rparr>]) \<and>
        fold (run_updater acc) (take (Suc n) (pending (streaming parse reads st)))
          (messages (streaming parse reads st)) =
        messages st @ [userMessage st, assistantMessage\<lparr>content := acc\<rparr>]) \<and>
   transcript (streaming parse reads st) =
     messages st @
     [userMessage st, assistantMessage\<lparr>content := concat (appended (streaming parse reads st))\<rparr>] \<and>
   map snd (shown (streaming parse reads st)) =
     map (\<lambda>fs. messages st @ [userMessage st, assistantMessage\<lparr>content := concat fs\<rparr>])
       (map fst (shown (streaming parse reads st))) \<and>
   map (\<lambda>fs. take (length fs) (appended (streaming parse reads st)))
     (map fst (shown (streaming parse reads st))) =
   map fst (shown (streaming parse reads st))"
proof -
  let ?s = "streaming parse reads st"
  let ?base = "messages st @ [userMessage st]"
  have inv: "in_flight st ?s"
    by (rule in_flight_streaming)
  then have acc: "assistantContent ?s = concat (appended ?s)"
    and t: "transcript ?s = messages st @ [userMessage st, assistantMessage\<lparr>content := assistantContent ?s\<rparr>]"
    and log: "\<forall>(fs, t) \<in> set (shown ?s).
        t = messages st @ [userMessage st, assistantMessage\<lparr>content := concat fs\<rparr>] \<and>
        take (length fs) (appended ?s) = fs"
    by (simp_all add: in_flight_def)
  from inv have run_on: "\<exists>x. fold (run_updater acc) (take n (pending ?s)) (messages ?s) =
      ?base @ [assistantMessage\<lparr>content := x\<rparr>]"
    if "n < length (pending ?s)" "pending ?s ! n = ShowAccumulator" for n
    using that by (simp add: in_flight_def)
  have each: "(\<exists>x. fold (run_updater acc) (take n (pending ?s)) (messages ?s) =
              messages st @ [userMessage st, assistantMessage\<lparr>content := x\<rparr>]) \<and>
        fold (run_updater acc) (take (Suc n) (pending ?s)) (messages ?s) =
        messages st @ [userMessage st, assistantMessage\<lparr>content := acc\<rparr>]"
    if n: "n < length (pending ?s)" and at: "pending ?s ! n = ShowAccumulator" for n
  proof -
    from run_on [OF that] obtain x where
      x: "fold (run_updater acc) (take n (pending ?s)) (messages ?s) =
            ?base @ [assistantMessage\<lparr>content := x\<rparr>]"
      by blast
    have "fold (run_updater acc) (take (Suc n) (pending ?s)) (messages ?s) =
        run_updater acc (pending ?s ! n) (fold (run_updater acc) (take n (pending ?s)) (messages ?s))"
      using n by (simp add: take_Suc_conv_app_nth)
    also have "\<dots> = ?base @ [assistantMessage\<lparr>content := acc\<rparr>]"
      unfolding at x by (simp only: run_updater.simps publish_last)
    finally show ?thesis
      using x by auto
  qed
  have frame: "run_updater acc ShowAccumulator prev =
     (if prev = [] then [] else butlast prev @ [assistantMessage\<lparr>content := acc\<rparr>])"
    by (simp only: run_updater.simps publish_frame)
  have rows: "map snd (shown ?s) =
     map (\<lambda>fs. messages st @ [userMessage st, assistantMessage\<lparr>content := concat fs\<rparr>])
       (map fst (shown ?s))"
    unfolding map_map by (rule map_cong) (use log in auto)
  have firsts: "map (\<lambda>fs. take (length fs) (appended ?s)) (map fst (shown ?s)) = map fst (shown ?s)"
    unfolding map_map by (rule map_cong) (use log in auto)
  show ?thesis
    using each by (intro conjI frame acc rows firsts allI impI) (simp_all add: t acc)
qed

theorem updates_show_full_accumulator_witness:
  "2 < length (pending (streaming sample_parse shared_read quiet_page)) \<and>
   pending (streaming sample_parse shared_read quiet_page) ! 2 = ShowAccumulator \<and>
   fold (run_updater ''catlate'') (take 3 (pending (streaming sample_parse shared_read quiet_page)))
     (messages (streaming sample_parse shared_read quiet_page)) =
     [asked, \<lparr>role = assistant, content = ''catlate'', imageUrl = None\<rparr>] \<and>
   transcript (streaming sample_parse shared_read quiet_page) =
     [asked, \<lparr>role = assistant, content = ''catlate'', imageUrl = None\<rparr>] \<and>
   map snd (shown (streaming sample_parse shared_read sample_page)) =
     [[asked, \<lparr>role = assistant, content = [], imageUrl = None\<rparr>],
      [asked, \<lparr>role = assistant, content = ''catlate'', imageUrl = None\<rparr>],
      [asked, \<lparr>role = assistant, content = ''catlate'', imageUrl = None\<rparr>]]"
proof -
  note quiet = updates_show_full_accumulator
    [of "''catlate''" "[]" sample_parse shared_read quiet_page]
  note seen = updates_show_full_accumulator
    [of "''catlate''" "[]" sample_parse shared_read sample_page]
  have q: "messages quiet_page = []" "userMessage quiet_page = asked"
    by (simp_all add: quiet_page_def sample_page_facts sample_messages userMessage_def asked_def)
  have n: "2 < length (pending (streaming sample_parse shared_read quiet_page))"
    "pending (streaming sample_parse shared_read quiet_page) ! 2 = ShowAccumulator"
    by (simp_all add: shared_read_quiet)
  from quiet [THEN conjunct2, THEN conjunct2, THEN conjunct1, THEN spec, THEN mp, OF n(1),
    THEN mp, OF n(2), THEN conjunct2]
  have a: "fold (run_updater ''catlate'') (take 3 (pending (streaming sample_parse shared_read quiet_page)))
     (messages (streaming sample_parse shared_read quiet_page)) =
     [asked, \<lparr>role = assistant, content = ''catlate'', imageUrl = None\<rparr>]"
    by (simp add: q assistantMessage_def eval_nat_numeral)
  from quiet have b: "transcript (streaming sample_parse shared_read quiet_page) =
     [asked, \<lparr>role = assistant, content = ''catlate'', imageUrl = None\<rparr>]"
    by (simp add: q shared_read_quiet(1) assistantMessage_def)
  from seen have c: "map snd (shown (streaming sample_parse shared_read sample_page)) =
     [[asked, \<lparr>role = assistant, content = [], imageUrl = None\<rparr>],
      [asked, \<lparr>role = assistant, content = ''catlate'', imageUrl = None\<rparr>],
      [asked, \<lparr>role = assistant, content = ''catlate'', imageUrl = None\<rparr>]]"
    by (simp add: shared_read_run sample_page_facts sample_messages assistantMessage_def)
  show ?thesis
    by (intro conjI n a b c)
qed

text \<open>
  Claim C7.  Take any chunk sequence and, in it, a complete line that starts at a line
  boundary and is a comment (it begins with a colon) or is blank once its trailing
  carriage return is stripped.  Deleting the characters of the line and its newline, from
  the one chunk that holds them or from the several chunks they are spread over, changes
  neither the accumulated text nor the transcript, as rendered and as the updaters still
  queued will make it.
\<close>

theorem comment_and_blank_lines_add_nothing:
  assumes "CHR 0x0A \<notin> set l" and "comment_or_blank l" and "boundary (concat pre @ a)"
  shows "assistantContent (decode parse (pre @ [a @ l @ newline @ b] @ post) st) =
           assistantContent (decode parse (pre @ [a @ b] @ post) st) \<and>
         messages (decode parse (pre @ [a @ l @ newline @ b] @ post) st) =
           messages (decode parse (pre @ [a @ b] @ post) st) \<and>
         pending (decode parse (pre @ [a @ l @ newline @ b] @ post) st) =
           pending (decode parse (pre @ [a @ b] @ post) st) \<and>
         (\<forall>p mids q. l = p @ concat mids @ q \<longrightarrow>
            assistantContent (decode parse (pre @ [a @ p] @ mids @ [q @ newline @ b] @ post) st) =
              assistantContent (decode parse (pre @ [a] @ map (\<lambda>m. []) mids @ [b] @ post) st) \<and>
            messages (decode parse (pre @ [a @ p] @ mids @ [q @ newline @ b] @ post) st) =
              messages (decode parse (pre @ [a] @ map (\<lambda>m. []) mids @ [b] @ post) st) \<and>
            pending (decode parse (pre @ [a @ p] @ mids @ [q @ newline @ b] @ post) st) =
              pending (decode parse (pre @ [a] @ map (\<lambda>m. []) mids @ [b] @ post) st))"
proof (intro conjI allI impI)
  note one = line_in_one_chunk [OF assms, of parse b post st]
  from one show "assistantContent (decode parse (pre @ [a @ l @ newline @ b] @ post) st) =
      assistantContent (decode parse (pre @ [a @ b] @ post) st)"
    by (rule rest_equal_fields)
  from one show "messages (decode parse (pre @ [a @ l @ newline @ b] @ post) st) =
      messages (decode parse (pre @ [a @ b] @ post) st)"
    by (rule rest_equal_fields)
  from one show "pending (decode parse (pre @ [a @ l @ newline @ b] @ post) st) =
      pending (decode parse (pre @ [a @ b] @ post) st)"
    by (rule rest_equal_fields)
next
  fix p mids q
  assume l: "l = p @ concat mids @ q"
  note many = line_across_chunks [OF assms(1,2) [unfolded l] assms(3), of parse b post st]
  from many show "assistantContent (decode parse (pre @ [a @ p] @ mids @ [q @ newline @ b] @ post) st) =
      assistantContent (decode parse (pre @ [a] @ map (\<lambda>m. []) mids @ [b] @ post) st)"
    by (rule rest_equal_fields)
next
  fix p mids q
  assume l: "l = p @ concat mids @ q"
  note many = line_across_chunks [OF assms(1,2) [unfolded l] assms(3), of parse b post st]
  from many show "messages (decode parse (pre @ [a @ p] @ mids @ [q @ newline @ b] @ post) st) =
      messages (decode parse (pre @ [a] @ map (\<lambda>m. []) mids @ [b] @ post) st)"
    by (rule rest_equal_fields)
next
  fix p mids q
  assume l: "l = p @ concat mids @ q"
  note many = line_across_chunks [OF assms(1,2) [unfolded l] assms(3), of parse b post st]
  from many show "pending (decode parse (pre @ [a @ p] @ mids @ [q @ newline @ b] @ post) st) =
      pending (decode parse (pre @ [a] @ map (\<lambda>m. []) mids @ [b] @ post) st)"
    by (rule rest_equal_fields)
qed

theorem comment_and_blank_lines_add_nothing_witness:
  "CHR 0x0A \<notin> set ping_line \<and> comment_or_blank ping_line \<and> boundary (concat [cat_chunk] @ []) \<and>
   assistantContent
     (decode sample_parse ([cat_chunk] @ [[] @ ping_line @ newline @ late_chunk] @ []) sample_page) =
     ''catlate'' \<and>
   ping_line = '': ke'' @ concat [''ep-'', ''ali''] @ (''ve'' @ carriage_return) \<and>
   assistantContent
     (decode sample_parse
        ([cat_chunk] @ [[] @ '': ke''] @ [''ep-'', ''ali''] @
         [(''ve'' @ carriage_return) @ newline @ late_chunk] @ []) sample_page) = ''catlate''"
proof -
  note t = comment_and_blank_lines_add_nothing
    [OF ping_line_facts(1,2,3), of sample_parse late_chunk "[]" sample_page]
  note one = t [THEN conjunct1]
  note many = t [THEN conjunct2, THEN conjunct2, THEN conjunct2, THEN spec, THEN spec, THEN spec, THEN mp,
    OF ping_line_facts(4), THEN conjunct1]
  have a: "assistantContent
     (decode sample_parse ([cat_chunk] @ [[] @ ping_line @ newline @ late_chunk] @ []) sample_page) =
     ''catlate''"
    by (simp only: one without_ping(1))
  have b: "assistantContent
     (decode sample_parse
        ([cat_chunk] @ [[] @ '': ke''] @ [''ep-'', ''ali''] @
         [(''ve'' @ carriage_return) @ newline @ late_chunk] @ []) sample_page) = ''catlate''"
    by (simp only: many without_ping(2))
  show ?thesis
    by (intro conjI ping_line_facts a b)
qed

text \<open>
  Claim C8.  A file whose declared type does not start with \<^verbatim>\<open>image/\<close>, or whose size
  exceeds 20 MiB (20971520 bytes), is rejected with a toast and leaves the page state as
  it was, with no request issued; a declared image within the limit, once read, becomes
  the selected image.
\<close>

theorem image_selection_is_validated:
  "(\<not> startsWith (file_type f) ''image/'' \<longrightarrow>
      handleImageSelect (Some f) st = (st, [ToastError (Literal ''Please select an image file'')])) \<and>
   (startsWith (file_type f) ''image/'' \<and> 20971520 < file_size f \<longrightarrow>
      handleImageSelect (Some f) st =
        (st, [ToastError (Literal ''Image size must be less than 20MB'')])) \<and>
   (startsWith (file_type f) ''image/'' \<and> file_size f \<le> 20971520 \<and> data_url f = Some url \<longrightarrow>
      handleImageSelect (Some f) st = (st\<lparr>selectedImage := Some url\<rparr>, []))"
  by (simp add: handleImageSelect_def)

theorem image_selection_is_validated_witness:
  "\<not> startsWith (file_type pdf_file) ''image/'' \<and>
   handleImageSelect (Some pdf_file) sample_page =
     (sample_page, [ToastError (Literal ''Please select an image file'')]) \<and>
   startsWith (file_type huge_file) ''image/'' \<and> 20971520 < file_size huge_file \<and>
   handleImageSelect (Some huge_file) sample_page =
     (sample_page, [ToastError (Literal ''Image size must be less than 20MB'')]) \<and>
   startsWith (file_type png_file) ''image/'' \<and> file_size png_file \<le> 20971520 \<and>
   handleImageSelect (Some png_file) (sample_page\<lparr>selectedImage := None\<rparr>) =
     (sample_page\<lparr>selectedImage := Some ''data:image/png;base64,iVBORw0KGgo=''\<rparr>, [])"
proof -
  have a: "\<not> startsWith (file_type pdf_file) ''image/''"
    by (simp add: pdf_file_def startsWith_def)
  have b: "startsWith (file_type huge_file) ''image/'' \<and> 20971520 < file_size huge_file"
    by (simp add: huge_file_def startsWith_def)
  have c: "startsWith (file_type png_file) ''image/'' \<and> file_size png_file \<le> 20971520 \<and>
           data_url png_file = Some ''data:image/png;base64,iVBORw0KGgo=''"
    by (simp add: png_file_def startsWith_def)
  show ?thesis
    using image_selection_is_validated [of pdf_file sample_page]
      image_selection_is_validated [of huge_file sample_page]
      image_selection_is_validated [of png_file "sample_page\<lparr>selectedImage := None\<rparr>"
        "''data:image/png;base64,iVBORw0KGgo=''"]
      a b c
    by simp
qed

text \<open>
  Claim C9.  When a send passes validation, the message appended after the old
  transcript is the user message, whose content is the trimmed input or, when that is
  empty, \<^verbatim>\<open>What's in this image?\<close>; the request carries the image and the trimmed
  input as prompt, or no prompt when the trimmed input is empty.
\<close>

theorem default_prompt:
  assumes "\<not> falsy (selectedImage st)"
  shows "take (Suc (length (messages st))) (messages (fst (handleSend parse net st))) =
           messages st @
           [\<lparr>role = user,
             content = (if trim (input st) = [] then ''What's in this image?'' else trim (input st)),
             imageUrl = selectedImage st\<rparr>] \<and>
         hd (snd (handleSend parse net st)) =
           Fetch \<lparr>imageBase64 = the (selectedImage st),
                  prompt = (if trim (input st) = [] then None else Some (trim (input st)))\<rparr>"
  using handleSend_transcript [OF assms, of parse net]
  by (simp add: userMessage_def analysis_request_def)

theorem default_prompt_witness:
  "\<not> falsy (selectedImage blank_page) \<and>
   take 1 (messages (fst (handleSend sample_parse rate_limited blank_page))) =
     [\<lparr>role = user, content = ''What's in this image?'',
       imageUrl = Some ''data:image/png;base64,iVBORw0KGgo=''\<rparr>] \<and>
   hd (snd (handleSend sample_parse rate_limited blank_page)) =
     Fetch \<lparr>imageBase64 = ''data:image/png;base64,iVBORw0KGgo='', prompt = None\<rparr> \<and>
   \<not> falsy (selectedImage sample_page) \<and>
   take 1 (messages (fst (handleSend sample_parse finished_stream sample_page))) =
     [\<lparr>role = user, content = ''what is this?'',
       imageUrl = Some ''data:image/png;base64,iVBORw0KGgo=''\<rparr>] \<and>
   hd (snd (handleSend sample_parse finished_stream sample_page)) =
     Fetch \<lparr>imageBase64 = ''data:image/png;base64,iVBORw0KGgo='',
            prompt = Some ''what is this?''\<rparr>"
  using default_prompt [OF blank_page_facts(1), of sample_parse rate_limited]
    default_prompt [OF sample_page_facts(1), of sample_parse finished_stream]
  by (simp add: blank_page_facts sample_page_facts falsy_def)

text \<open>
  Claim C10.  A send that fails leaves the selected image and the file input as they
  were; a send whose stream completes clears the selected image and resets the value of
  the file input.
\<close>

theorem image_kept_on_failure_cleared_on_success:
  assumes "\<not> falsy (selectedImage st)"
  shows "(failure net \<noteq> None \<longrightarrow>
            selectedImage (fst (handleSend parse net st)) = selectedImage st \<and>
            fileInput (fst (handleSend parse net st)) = fileInput st) \<and>
         (failure net = None \<longrightarrow>
            selectedImage (fst (handleSend parse net st)) = None \<and>
            fileInput (fst (handleSend parse net st)) = map_option (\<lambda>v. []) (fileInput st))"
proof (cases "failure net")
  case None
  then show ?thesis
    by (simp add: handleSend_success [OF assms None])
next
  case (Some e)
  then show ?thesis
    by (simp add: handleSend_failure [OF assms Some])
qed

theorem image_kept_on_failure_cleared_on_success_witness:
  "\<not> falsy (selectedImage sample_page) \<and> failure rate_limited \<noteq> None \<and>
   selectedImage (fst (handleSend sample_parse rate_limited sample_page)) =
     Some ''data:image/png;base64,iVBORw0KGgo='' \<and>
   fileInput (fst (handleSend sample_parse rate_limited sample_page)) = Some ''cat.png'' \<and>
   failure finished_stream = None \<and>
   selectedImage (fst (handleSend sample_parse finished_stream sample_page)) = None \<and>
   fileInput (fst (handleSend sample_parse finished_stream sample_page)) = Some []"
  using image_kept_on_failure_cleared_on_success [OF sample_page_facts(1), of rate_limited sample_parse]
    image_kept_on_failure_cleared_on_success [OF sample_page_facts(1), of finished_stream sample_parse]
  by (simp add: sample_failures sample_page_facts falsy_def)

end
